theory Spec2Isabelle
  imports Complex_Main "HOL-Library.Char_ord" "HOL-Library.List_Lexorder"
begin

section \<open>Tables\<close>

text \<open>
  A pandas DataFrame is modelled as an ordered list of named columns. A column carries
  its dtype and its cells in row order; a missing value (NaN, NaT, None) is the cell
  \<open>NA\<close>. Floating-point numbers are modelled as exact reals. A timestamp is a day
  number (days since 1970-01-01) together with the seconds elapsed within that day.
  The row index is implicit (positions), and a frame without columns has no rows.
  The dtype \<open>Numeric\<close> stands for every number dtype (integer and floating-point
  alike), and a categorical dtype carries its categories.
\<close>

datatype cell = NA | Num real | Str string | Ts int nat

datatype dtype = Numeric | Object | Category "string list" | Datetime

definition is_category :: "dtype \<Rightarrow> bool" where
  "is_category d = (case d of Category cats \<Rightarrow> True | _ \<Rightarrow> False)"

datatype column = Column (dtype: dtype) (cells: "cell list")

type_synonym table = "(string \<times> column) list"

definition columns :: "table \<Rightarrow> string list" where
  "columns T = map fst T"

definition nrows :: "table \<Rightarrow> nat" where
  "nrows T = (case T of [] \<Rightarrow> 0 | (n, c) # rest \<Rightarrow> length (cells c))"

text \<open>\<open>df[name] = series\<close>: replaces the column of that name in place, or appends it.\<close>

fun assign :: "string \<Rightarrow> column \<Rightarrow> table \<Rightarrow> table" where
  "assign n c [] = [(n, c)]"
| "assign n c ((m, d) # T) = (if m = n then (n, c) # T else (m, d) # assign n c T)"

subsection \<open>Formatting integers in column names\<close>

definition digit_char :: "nat \<Rightarrow> char" where
  "digit_char n = ''0123456789'' ! n"

fun str_nat :: "nat \<Rightarrow> string" where
  "str_nat n = (if n < 10 then [digit_char n] else str_nat (n div 10) @ [digit_char (n mod 10)])"

declare str_nat.simps [simp del]

definition str_int :: "int \<Rightarrow> string" where
  "str_int i = (if i < 0 then CHR ''-'' # str_nat (nat (- i)) else str_nat (nat i))"

section \<open>Feature engineering: lagged features\<close>

text \<open>
  \<open>Series.shift(k)\<close>: for \<open>k \<ge> 0\<close> the values move down by \<open>k\<close> rows and the first
  \<open>k\<close> rows become missing; a negative \<open>k\<close> moves them up.
\<close>

definition shift :: "int \<Rightarrow> cell list \<Rightarrow> cell list" where
  "shift k xs =
     (let n = length xs in
      if 0 \<le> k then replicate (min (nat k) n) NA @ take (n - nat k) xs
      else drop (nat (- k)) xs @ replicate (min (nat (- k)) n) NA)"

text \<open>
  The shifted series. The dtypes of this development do not tell integer from floating-point
  columns: \<open>Numeric\<close> stands for every number dtype, and pandas turns an integer column
  into a floating-point one when the shift brings in a missing value. So the dtype kept
  here says only that a number column stays a number column (and an object, categorical or
  datetime column stays one); no property below is drawn from it.
\<close>

definition shift_col :: "int \<Rightarrow> column \<Rightarrow> column" where
  "shift_col k c = Column (dtype c) (shift k (cells c))"

definition lag_name :: "string \<Rightarrow> int \<Rightarrow> string" where
  "lag_name col lag = col @ ''_lag'' @ str_int lag"

text \<open>
  The inner loop \<open>for lag in lags: df_feat[f'{col}_lag{lag}'] = df_feat[col].shift(lag)\<close>.
  The column is read from the table as it is at that iteration; it is present, since the
  caller checks it and no assignment removes a column.
\<close>

fun lags_for :: "string \<Rightarrow> int list \<Rightarrow> table \<Rightarrow> table" where
  "lags_for col [] T = T"
| "lags_for col (lag # lags) T =
     (case map_of T col of
        None \<Rightarrow> T
      | Some c \<Rightarrow> lags_for col lags (assign (lag_name col lag) (shift_col lag c) T))"

fun create_lagged_features :: "table \<Rightarrow> string list \<Rightarrow> int list \<Rightarrow> table" where
  "create_lagged_features T [] lags = T"
| "create_lagged_features T (col # value_cols) lags =
     create_lagged_features
       (if col \<in> set (columns T) then lags_for col lags T else T) value_cols lags"

section \<open>Feature engineering: rolling-window features\<close>

datatype error = KeyError | ValueError | DataError | TypeError | AttributeError | ZeroDivisionError

text \<open>
  \<open>all_nums\<close> gives the numbers of a window when every cell of it is a number. With
  \<open>rolling(w)\<close> the minimum number of observations is \<open>w\<close>, so a window holding a
  missing value, or reaching before the first row, yields a missing value.
\<close>

fun all_nums :: "cell list \<Rightarrow> real list option" where
  "all_nums [] = Some []"
| "all_nums (Num x # cs) = map_option ((#) x) (all_nums cs)"
| "all_nums (c # cs) = None"

definition window_at :: "nat \<Rightarrow> cell list \<Rightarrow> nat \<Rightarrow> real list option" where
  "window_at w xs i =
     (if w = 0 \<or> i + 1 < w then None else all_nums (take w (drop (i + 1 - w) xs)))"

definition rolling :: "nat \<Rightarrow> (real list \<Rightarrow> cell) \<Rightarrow> cell list \<Rightarrow> cell list" where
  "rolling w f xs =
     map (\<lambda>i. case window_at w xs i of None \<Rightarrow> NA | Some ws \<Rightarrow> f ws) [0..<length xs]"

definition mean :: "real list \<Rightarrow> real" where
  "mean xs = sum_list xs / real (length xs)"

text \<open>The sample variance (one degree of freedom removed), undefined below two values.\<close>

definition variance :: "real list \<Rightarrow> real option" where
  "variance xs =
     (if length xs < 2 then None
      else Some (sum_list (map (\<lambda>x. (x - mean xs) ^ 2) xs) / real (length xs - 1)))"

datatype stat = RMean | RStd | RMax | RMin

fun stat_name :: "stat \<Rightarrow> string" where
  "stat_name RMean = ''mean''"
| "stat_name RStd = ''std''"
| "stat_name RMax = ''max''"
| "stat_name RMin = ''min''"

fun stat_cell :: "stat \<Rightarrow> real list \<Rightarrow> cell" where
  "stat_cell RMean xs = Num (mean xs)"
| "stat_cell RStd xs = (case variance xs of None \<Rightarrow> NA | Some v \<Rightarrow> Num (sqrt v))"
| "stat_cell RMax xs = (case xs of [] \<Rightarrow> NA | y # ys \<Rightarrow> Num (fold max ys y))"
| "stat_cell RMin xs = (case xs of [] \<Rightarrow> NA | y # ys \<Rightarrow> Num (fold min ys y))"

definition rolling_name :: "string \<Rightarrow> stat \<Rightarrow> int \<Rightarrow> string" where
  "rolling_name col s window = col @ ''_rolling_'' @ stat_name s @ ''_'' @ str_int window @ ''d''"

text \<open>
  \<open>df_feat[col].rolling(window).<stat>()\<close>: a negative window is rejected when the
  rolling object is built, a column that is not numeric when the statistic is computed.
\<close>

definition roll_col :: "stat \<Rightarrow> int \<Rightarrow> column \<Rightarrow> error + column" where
  "roll_col s window c =
     (if window < 0 then Inl ValueError
      else if dtype c \<noteq> Numeric then Inl DataError
      else Inr (Column Numeric (rolling (nat window) (stat_cell s) (cells c))))"

text \<open>
  The four assignments of one window, in the order of the statistics given; each reads
  \<open>df_feat[col]\<close> from the table as the previous assignment left it.
\<close>

fun rolling_stats :: "string \<Rightarrow> int \<Rightarrow> stat list \<Rightarrow> table \<Rightarrow> error + table" where
  "rolling_stats col window [] T = Inr T"
| "rolling_stats col window (s # ss) T =
     (case map_of T col of
        None \<Rightarrow> Inl KeyError
      | Some c \<Rightarrow>
          (case roll_col s window c of
             Inl e \<Rightarrow> Inl e
           | Inr r \<Rightarrow> rolling_stats col window ss (assign (rolling_name col s window) r T)))"

fun rolling_for :: "string \<Rightarrow> int list \<Rightarrow> table \<Rightarrow> error + table" where
  "rolling_for col [] T = Inr T"
| "rolling_for col (window # windows) T =
     (case rolling_stats col window [RMean, RStd, RMax, RMin] T of
        Inl e \<Rightarrow> Inl e
      | Inr T' \<Rightarrow> rolling_for col windows T')"

fun create_rolling_features :: "table \<Rightarrow> string list \<Rightarrow> int list \<Rightarrow> error + table" where
  "create_rolling_features T [] windows = Inr T"
| "create_rolling_features T (col # value_cols) windows =
     (case (if col \<in> set (columns T) then rolling_for col windows T else Inr T) of
        Inl e \<Rightarrow> Inl e
      | Inr T' \<Rightarrow> create_rolling_features T' value_cols windows)"

section \<open>Row operations\<close>

text \<open>
  Boolean indexing \<open>df[mask]\<close> keeps, in every column, the rows whose mask entry is true.
\<close>

definition keep_cells :: "bool list \<Rightarrow> 'a list \<Rightarrow> 'a list" where
  "keep_cells flags xs = map fst (filter snd (zip xs flags))"

definition keep_rows :: "bool list \<Rightarrow> table \<Rightarrow> table" where
  "keep_rows flags T = map (\<lambda>(n, c). (n, Column (dtype c) (keep_cells flags (cells c)))) T"

definition notna :: "column \<Rightarrow> bool list" where
  "notna c = map (\<lambda>x. x \<noteq> NA) (cells c)"

text \<open>
  The rows of a table restricted to some columns, as lists of cells. Two missing values
  count as equal when duplicates are looked for, as \<open>NA = NA\<close> does here.
\<close>

definition sel_cols :: "table \<Rightarrow> string list \<Rightarrow> cell list list" where
  "sel_cols T names = concat (map (\<lambda>n. case map_of T n of None \<Rightarrow> [] | Some c \<Rightarrow> [cells c]) names)"

fun row_keys :: "nat \<Rightarrow> cell list list \<Rightarrow> cell list list" where
  "row_keys n [] = replicate n []"
| "row_keys n (c # cs) = map2 (#) c (row_keys n cs)"

text \<open>\<open>~duplicated()\<close>: true at the first occurrence of each key.\<close>

fun first_mask :: "'a list \<Rightarrow> 'a list \<Rightarrow> bool list" where
  "first_mask seen [] = []"
| "first_mask seen (k # ks) = (k \<notin> set seen) # first_mask (k # seen) ks"

definition drop_duplicates :: "string list \<Rightarrow> table \<Rightarrow> table" where
  "drop_duplicates by T = keep_rows (first_mask [] (row_keys (nrows T) (sel_cols T by))) T"

text \<open>
  \<open>sort_values(name)\<close> on a timestamp column: ascending, rows without a timestamp last.
  The sort is modelled as stable; pandas does not fix the order of rows with equal
  timestamps.
\<close>

fun ts_key :: "cell \<Rightarrow> int" where
  "ts_key (Ts d t) = d * 86400 + int t"
| "ts_key c = 0"

definition sort_cells :: "cell list \<Rightarrow> cell list \<Rightarrow> cell list" where
  "sort_cells keys xs =
     (let ps = zip keys xs
      in map snd (sort_key (\<lambda>p. ts_key (fst p)) (filter (\<lambda>p. fst p \<noteq> NA) ps)
                  @ filter (\<lambda>p. fst p = NA) ps))"

definition sort_values :: "string \<Rightarrow> table \<Rightarrow> error + table" where
  "sort_values name T =
     (case map_of T name of
        None \<Rightarrow> Inl KeyError
      | Some k \<Rightarrow> Inr (map (\<lambda>(n, c). (n, Column (dtype c) (sort_cells (cells k) (cells c)))) T))"

text \<open>
  The rearrangement that \<open>sort_values\<close> applies to every column, for rows of any kind.
\<close>

definition arrange :: "cell list \<Rightarrow> 'a list \<Rightarrow> 'a list" where
  "arrange keys xs =
     (let ps = zip keys xs
      in map snd (sort_key (\<lambda>p. ts_key (fst p)) (filter (\<lambda>p. fst p \<noteq> NA) ps)
                  @ filter (\<lambda>p. fst p = NA) ps))"

section \<open>Strings and dates\<close>

text \<open>
  \<open>str.strip()\<close> and \<open>str.lower()\<close> on ASCII text; the \<open>.str\<close> accessor exists on
  string-valued columns only and yields a missing value for a cell that is not a string.
\<close>

definition is_space :: "char \<Rightarrow> bool" where
  "is_space c \<longleftrightarrow>
     c \<in> set [CHR 0x09, CHR 0x0A, CHR 0x0B, CHR 0x0C, CHR 0x0D,
                CHR 0x1C, CHR 0x1D, CHR 0x1E, CHR 0x1F, CHR 0x20]"

definition strip :: "string \<Rightarrow> string" where
  "strip s = rev (dropWhile is_space (rev (dropWhile is_space s)))"

definition lower_char :: "char \<Rightarrow> char" where
  "lower_char c =
     (case map_of (zip ''ABCDEFGHIJKLMNOPQRSTUVWXYZ'' ''abcdefghijklmnopqrstuvwxyz'') c of
        None \<Rightarrow> c
      | Some l \<Rightarrow> l)"

definition lower :: "string \<Rightarrow> string" where
  "lower s = map lower_char s"

definition str_map :: "(string \<Rightarrow> string) \<Rightarrow> column \<Rightarrow> error + column" where
  "str_map f c =
     (if dtype c = Object \<or> is_category (dtype c)
      then Inr (Column Object (map (\<lambda>x. case x of Str s \<Rightarrow> Str (f s) | _ \<Rightarrow> NA) (cells c)))
      else Inl AttributeError)"

text \<open>
  \<open>pd.to_datetime(..., errors='coerce')\<close>: a timestamp stays, a string is parsed by the
  library's parser (a parameter of the model) and becomes missing when that fails, a
  number counts nanoseconds since the epoch.
\<close>

fun to_datetime :: "(string \<Rightarrow> (int \<times> nat) option) \<Rightarrow> cell \<Rightarrow> cell" where
  "to_datetime parse NA = NA"
| "to_datetime parse (Ts d t) = Ts d t"
| "to_datetime parse (Str s) = (case parse s of None \<Rightarrow> NA | Some (d, t) \<Rightarrow> Ts d t)"
| "to_datetime parse (Num x) =
     Ts (\<lfloor>x\<rfloor> div 86400000000000) (nat ((\<lfloor>x\<rfloor> mod 86400000000000) div 1000000000))"

text \<open>Calendar fields of a day number (proleptic Gregorian calendar, Monday is 0).\<close>

definition dayofweek :: "int \<Rightarrow> int" where
  "dayofweek d = (d + 3) mod 7"

definition civil :: "int \<Rightarrow> int \<times> int" where
  "civil d =
     (let z = d + 719468;
          era = z div 146097;
          doe = z mod 146097;
          yoe = (doe - doe div 1460 + doe div 36524 - doe div 146096) div 365;
          doy = doe - (365 * yoe + yoe div 4 - yoe div 100);
          mp = (5 * doy + 2) div 153;
          m = (if mp < 10 then mp + 3 else mp - 9);
          y = yoe + era * 400 + (if m \<le> 2 then 1 else 0)
      in (y, m))"

definition dt_field :: "(int \<Rightarrow> int) \<Rightarrow> column \<Rightarrow> error + column" where
  "dt_field f c =
     (if dtype c = Datetime
      then Inr (Column Numeric (map (\<lambda>x. case x of Ts d t \<Rightarrow> Num (of_int (f d)) | _ \<Rightarrow> NA) (cells c)))
      else Inl AttributeError)"

section \<open>Cleaning of scraped data\<close>

text \<open>
  The two filters on a text column: rows with a missing text go, then rows whose text
  is blank after stripping.
\<close>

definition drop_blank :: "string \<Rightarrow> table \<Rightarrow> error + table" where
  "drop_blank col T =
     (case map_of T col of
        None \<Rightarrow> Inr T
      | Some c \<Rightarrow>
          (let T1 = keep_rows (notna c) T
           in case map_of T1 col of
                None \<Rightarrow> Inl KeyError
              | Some c1 \<Rightarrow>
                  (case str_map strip c1 of
                     Inl e \<Rightarrow> Inl e
                   | Inr s \<Rightarrow> Inr (keep_rows (map (\<lambda>x. x \<noteq> Str []) (cells s)) T1))))"

definition parse_dates :: "(string \<Rightarrow> (int \<times> nat) option) \<Rightarrow> table \<Rightarrow> table" where
  "parse_dates parse T =
     (case map_of T ''date'' of
        None \<Rightarrow> T
      | Some c \<Rightarrow>
          (let d = Column Datetime (map (to_datetime parse) (cells c))
           in keep_rows (notna d) (assign ''date'' d T)))"

text \<open>
  The loop over the text columns: \<open>df[col + '_lower'] = df[col].str.lower()\<close>, then
  \<open>df[col] = df[col].str.strip()\<close>.
\<close>

fun lower_strip :: "string list \<Rightarrow> table \<Rightarrow> error + table" where
  "lower_strip [] T = Inr T"
| "lower_strip (col # cols) T =
     (case map_of T col of
        None \<Rightarrow> lower_strip cols T
      | Some c \<Rightarrow>
          (case str_map lower c of
             Inl e \<Rightarrow> Inl e
           | Inr l \<Rightarrow>
               (let T1 = assign (col @ ''_lower'') l T
                in case map_of T1 col of
                     None \<Rightarrow> Inl KeyError
                   | Some c1 \<Rightarrow>
                       (case str_map strip c1 of
                          Inl e \<Rightarrow> Inl e
                        | Inr s \<Rightarrow> lower_strip cols (assign col s T1)))))"

text \<open>
  The sentiment filter keeps the rows whose score lies in \<open>[-1, 1]\<close>; a missing score
  compares false. Comparing a column that is not numeric with a number raises.
\<close>

definition in_unit :: "cell \<Rightarrow> bool" where
  "in_unit x = (case x of Num v \<Rightarrow> - 1 \<le> v \<and> v \<le> 1 | _ \<Rightarrow> False)"

definition sentiment_filter :: "table \<Rightarrow> error + table" where
  "sentiment_filter T =
     (case map_of T ''sentiment_polarity'' of
        None \<Rightarrow> Inr T
      | Some c \<Rightarrow>
          if dtype c = Numeric then Inr (keep_rows (map in_unit (cells c)) T)
          else Inl TypeError)"

definition duplicate_cols :: "table \<Rightarrow> string list" where
  "duplicate_cols T =
     filter (\<lambda>col. col \<in> set (columns T))
       (if ''title'' \<in> set (columns T) then [''date'', ''title''] else [''date'', ''text''])"

definition dedup_scraped :: "table \<Rightarrow> table" where
  "dedup_scraped T = (if duplicate_cols T \<noteq> [] then drop_duplicates (duplicate_cols T) T else T)"

definition date_parts :: "table \<Rightarrow> error + table" where
  "date_parts T =
     (case map_of T ''date'' of
        None \<Rightarrow> Inr T
      | Some c \<Rightarrow>
          (case dt_field dayofweek c of
             Inl e \<Rightarrow> Inl e
           | Inr w \<Rightarrow>
               (let T1 = assign ''day_of_week'' w T
                in case map_of T1 ''date'' of
                     None \<Rightarrow> Inl KeyError
                   | Some c1 \<Rightarrow>
                       (case dt_field (\<lambda>d. snd (civil d)) c1 of
                          Inl e \<Rightarrow> Inl e
                        | Inr m \<Rightarrow>
                            (let T2 = assign ''month'' m T1
                             in case map_of T2 ''date'' of
                                  None \<Rightarrow> Inl KeyError
                                | Some c2 \<Rightarrow>
                                    (case dt_field (\<lambda>d. fst (civil d)) c2 of
                                       Inl e \<Rightarrow> Inl e
                                     | Inr y \<Rightarrow> Inr (assign ''year'' y T2)))))))"

definition sort_by_date :: "table \<Rightarrow> error + table" where
  "sort_by_date T = (if ''date'' \<in> set (columns T) then sort_values ''date'' T else Inr T)"

definition bind :: "error + 'a \<Rightarrow> ('a \<Rightarrow> error + 'b) \<Rightarrow> error + 'b" where
  "bind r f = (case r of Inl e \<Rightarrow> Inl e | Inr x \<Rightarrow> f x)"

text \<open>The rows that pass the blank-text, date and sentiment filters.\<close>

definition scraped_filtered :: "(string \<Rightarrow> (int \<times> nat) option) \<Rightarrow> table \<Rightarrow> error + table" where
  "scraped_filtered parse df =
     bind (drop_blank ''text'' df) (\<lambda>T1.
     bind (drop_blank ''content'' T1) (\<lambda>T2.
     bind (lower_strip [''text'', ''title'', ''content'', ''clean_text''] (parse_dates parse T2))
       sentiment_filter))"

definition clean_scraped_data ::
  "(string \<Rightarrow> (int \<times> nat) option) \<Rightarrow> table \<Rightarrow> string \<Rightarrow> error + table" where
  "clean_scraped_data parse df source =
     bind (scraped_filtered parse df) (\<lambda>T4.
     bind (date_parts (dedup_scraped T4)) sort_by_date)"

text \<open>The column of a given name in a result, when the call returned a table.\<close>

definition get_col :: "error + table \<Rightarrow> string \<Rightarrow> column option" where
  "get_col r n = (case r of Inl e \<Rightarrow> None | Inr T \<Rightarrow> map_of T n)"

text \<open>
  A column of a table survives in another with the same dtype and with cells taken from
  its own.
\<close>

definition shrinks :: "string \<Rightarrow> table \<Rightarrow> table \<Rightarrow> bool" where
  "shrinks n T T' \<longleftrightarrow>
     (\<forall>c. map_of T n = Some c \<longrightarrow>
        (\<exists>c'. map_of T' n = Some c' \<and> dtype c' = dtype c \<and> set (cells c') \<subseteq> set (cells c)))"

text \<open>
  A table is well formed when all its columns have the same number of cells; \<open>same_dom\<close>
  says that a name is a column of both tables or of neither.
\<close>

definition wf :: "table \<Rightarrow> bool" where
  "wf T \<longleftrightarrow> (\<forall>(n, c)\<in>set T. length (cells c) = nrows T)"

definition same_dom :: "string \<Rightarrow> table \<Rightarrow> table \<Rightarrow> bool" where
  "same_dom n T T' \<longleftrightarrow> (n \<in> set (columns T')) = (n \<in> set (columns T))"

section \<open>Validation\<close>

text \<open>
  The numbers of a column (missing values are skipped by the statistics), and
  \<open>Series.quantile(q)\<close> with linear interpolation between the two nearest ranks; the
  quantile of a column without numbers is not a number, \<open>None\<close> here.
\<close>

definition nums :: "column \<Rightarrow> real list" where
  "nums c = concat (map (\<lambda>x. case x of Num v \<Rightarrow> [v] | _ \<Rightarrow> []) (cells c))"

definition quantile :: "real \<Rightarrow> real list \<Rightarrow> real option" where
  "quantile q xs =
     (if xs = [] then None
      else (let s = sort xs;
                pos = q * real (length s - 1);
                lo = nat \<lfloor>pos\<rfloor>;
                frac = pos - real lo
            in Some (if lo + 1 < length s then s ! lo + frac * (s ! (lo + 1) - s ! lo)
                     else s ! lo)))"

definition numeric_cols :: "table \<Rightarrow> string list" where
  "numeric_cols T = map fst (filter (\<lambda>(n, c). dtype c = Numeric) T)"

record dup_report =
  duplicate_count :: nat
  duplicate_ratio :: "real option"
  checked_columns :: "string list option"

text \<open>
  \<open>dup_count / len(df)\<close> divides an integer of the numeric library, which yields NaN
  (\<open>None\<close>) for 0 / 0; \<open>len(outliers) / len(df)\<close> divides Python integers, which raises.
\<close>

definition np_div :: "nat \<Rightarrow> nat \<Rightarrow> real option" where
  "np_div a b = (if b = 0 then None else Some (real a / real b))"

definition py_div :: "nat \<Rightarrow> nat \<Rightarrow> error + real" where
  "py_div a b = (if b = 0 then Inl ZeroDivisionError else Inr (real a / real b))"

text \<open>\<open>df.duplicated(subset)\<close>: true for every row but the first of each key.\<close>

definition duplicated :: "string list \<Rightarrow> table \<Rightarrow> bool list" where
  "duplicated by T = map Not (first_mask [] (row_keys (nrows T) (sel_cols T by)))"

definition check_duplicates :: "table \<Rightarrow> string list option \<Rightarrow> error + dup_report" where
  "check_duplicates df sub =
     (let by = (case sub of None \<Rightarrow> [] | Some s \<Rightarrow> s)
      in if by \<noteq> [] \<and> \<not> set by \<subseteq> set (columns df) then Inl KeyError
         else (let dup_count = length (filter (\<lambda>b. b)
                                  (duplicated (if by \<noteq> [] then by else columns df) df))
               in Inr \<lparr>duplicate_count = dup_count,
                        duplicate_ratio = np_div dup_count (nrows df),
                        checked_columns = (if by \<noteq> [] then Some by else None)\<rparr>))"

record outlier_entry =
  out_count :: nat
  out_ratio :: real
  lower_bound :: "real option"
  upper_bound :: "real option"

record stats_entry =
  st_min :: "real option"
  st_max :: "real option"
  st_mean :: "real option"
  st_median :: "real option"
  st_std :: "real option"

record range_report =
  outliers :: "(string \<times> outlier_entry) list"
  range_violations :: "(string \<times> nat) list"
  statistics :: "(string \<times> stats_entry) list"

text \<open>
  The loop of \<open>check_numeric_ranges\<close> over the numeric columns: IQR bounds, the rows
  outside them (a comparison with a missing value or bound is false), their ratio, the
  descriptive statistics, and the rows outside the expected range when one is given.
\<close>

definition iqr_bounds :: "column \<Rightarrow> real option \<times> real option" where
  "iqr_bounds c =
     (case (quantile (1/4) (nums c), quantile (3/4) (nums c)) of
        (Some q1, Some q3) \<Rightarrow> (Some (q1 - 1.5 * (q3 - q1)), Some (q3 + 1.5 * (q3 - q1)))
      | _ \<Rightarrow> (None, None))"

definition outside :: "real option \<Rightarrow> real option \<Rightarrow> cell \<Rightarrow> bool" where
  "outside lo hi x =
     (case x of
        Num v \<Rightarrow> (case lo of None \<Rightarrow> False | Some l \<Rightarrow> v < l)
                 \<or> (case hi of None \<Rightarrow> False | Some h \<Rightarrow> v > h)
      | _ \<Rightarrow> False)"

definition col_stats :: "column \<Rightarrow> stats_entry" where
  "col_stats c =
     (let xs = nums c
      in \<lparr>st_min = (case xs of [] \<Rightarrow> None | y # ys \<Rightarrow> Some (fold min ys y)),
          st_max = (case xs of [] \<Rightarrow> None | y # ys \<Rightarrow> Some (fold max ys y)),
          st_mean = (if xs = [] then None else Some (mean xs)),
          st_median = quantile (1/2) xs,
          st_std = map_option sqrt (variance xs)\<rparr>)"

fun ranges_loop ::
  "table \<Rightarrow> (string \<times> real \<times> real) list \<Rightarrow> string list \<Rightarrow> range_report \<Rightarrow> error + range_report"
where
  "ranges_loop df expected [] rep = Inr rep"
| "ranges_loop df expected (col # cols) rep =
     (case map_of df col of
        None \<Rightarrow> Inl KeyError
      | Some c \<Rightarrow>
          (let (lo, hi) = iqr_bounds c;
               n_out = length (filter (outside lo hi) (cells c))
           in case py_div n_out (nrows df) of
                Inl e \<Rightarrow> Inl e
              | Inr r \<Rightarrow>
                  ranges_loop df expected cols
                    \<lparr>outliers = outliers rep @
                       [(col, \<lparr>out_count = n_out, out_ratio = r, lower_bound = lo, upper_bound = hi\<rparr>)],
                     range_violations =
                       (case map_of expected col of
                          None \<Rightarrow> range_violations rep
                        | Some (exp_min, exp_max) \<Rightarrow>
                            range_violations rep @
                              [(col, length (filter (outside (Some exp_min) (Some exp_max)) (cells c)))]),
                     statistics = statistics rep @ [(col, col_stats c)]\<rparr>))"

definition check_numeric_ranges ::
  "table \<Rightarrow> (string \<times> real \<times> real) list \<Rightarrow> error + range_report" where
  "check_numeric_ranges df expected =
     ranges_loop df expected (numeric_cols df)
       \<lparr>outliers = [], range_violations = [], statistics = []\<rparr>"

section \<open>Cleaning of the primary table\<close>

text \<open>
  The loop \<open>for col in cols: df[col] = g(df[col])\<close>: each column is read from the
  table as the previous assignments left it.
\<close>

fun for_cols :: "string list \<Rightarrow> (column \<Rightarrow> error + column) \<Rightarrow> table \<Rightarrow> error + table" where
  "for_cols [] g T = Inr T"
| "for_cols (col # cols) g T =
     (case map_of T col of
        None \<Rightarrow> Inl KeyError
      | Some c \<Rightarrow> (case g c of Inl e \<Rightarrow> Inl e | Inr c' \<Rightarrow> for_cols cols g (assign col c' T)))"

text \<open>
  Missing values: a numeric column that has one is filled with its median (the median
  of a column without numbers is NaN, which fills nothing); an object or categorical
  column that has one is filled with its mode, the most frequent value and among equally
  frequent ones the first in sorted order (category order for a categorical), or with
  \<open>'Unknown'\<close> when it has no value at all, which a categorical without that category
  rejects.
\<close>

definition fillna :: "cell \<Rightarrow> column \<Rightarrow> column" where
  "fillna v c = Column (dtype c) (map (\<lambda>x. if x = NA then v else x) (cells c))"

definition fill_numeric :: "column \<Rightarrow> column" where
  "fill_numeric c =
     (if NA \<in> set (cells c)
      then (case quantile (1/2) (nums c) of None \<Rightarrow> c | Some m \<Rightarrow> fillna (Num m) c)
      else c)"

fun cell_before :: "dtype \<Rightarrow> cell \<Rightarrow> cell \<Rightarrow> bool" where
  "cell_before (Category cats) (Str s) (Str t) =
     (length (takeWhile (\<lambda>x. x \<noteq> s) cats) < length (takeWhile (\<lambda>x. x \<noteq> t) cats))"
| "cell_before d (Str s) (Str t) = (s < t)"
| "cell_before d (Num a) (Num b) = (a < b)"
| "cell_before d x y = False"

definition mode :: "column \<Rightarrow> cell option" where
  "mode c =
     (let xs = filter (\<lambda>x. x \<noteq> NA) (cells c);
          better = (\<lambda>v b. if count_list xs b < count_list xs v
                             \<or> (count_list xs v = count_list xs b \<and> cell_before (dtype c) v b)
                           then v else b)
      in case remdups xs of [] \<Rightarrow> None | v # vs \<Rightarrow> Some (fold better vs v))"

definition fill_categorical :: "column \<Rightarrow> error + column" where
  "fill_categorical c =
     (if NA \<in> set (cells c)
      then (case mode c of
              Some m \<Rightarrow> Inr (fillna m c)
            | None \<Rightarrow>
                (case dtype c of
                   Category cats \<Rightarrow>
                     if ''Unknown'' \<in> set cats then Inr (fillna (Str ''Unknown'') c)
                     else Inl TypeError
                 | _ \<Rightarrow> Inr (fillna (Str ''Unknown'') c)))
      else Inr c)"

definition categorical_cols :: "table \<Rightarrow> string list" where
  "categorical_cols T = map fst (filter (\<lambda>(n, c). dtype c = Object \<or> is_category (dtype c)) T)"

definition handle_missing_values :: "table \<Rightarrow> error + table" where
  "handle_missing_values df =
     bind (for_cols (numeric_cols df) (\<lambda>c. Inr (fill_numeric c)) df)
       (\<lambda>T. for_cols (categorical_cols T) fill_categorical T)"

text \<open>
  The parsers and the string conversion of the library are parameters of the model:
  \<open>pd.to_datetime\<close> and \<open>pd.to_numeric\<close> on a string, and \<open>astype(str)\<close> on a cell.
\<close>

record pandas =
  parse_date :: "string \<Rightarrow> (int \<times> nat) option"
  parse_num :: "string \<Rightarrow> real option"
  to_str :: "cell \<Rightarrow> string"

text \<open>
  \<open>pd.cut(..., right=False)\<close>: the label of the first bin \<open>[lo, hi)\<close> that holds the
  value, missing outside all bins; it needs a numeric column.
\<close>

fun cut :: "real list \<Rightarrow> string list \<Rightarrow> real \<Rightarrow> cell" where
  "cut (lo # hi # bins) (l # labels) x =
     (if lo \<le> x \<and> x < hi then Str l else cut (hi # bins) labels x)"
| "cut bins labels x = NA"

definition cut_col :: "real list \<Rightarrow> string list \<Rightarrow> column \<Rightarrow> error + column" where
  "cut_col bins labels c =
     (if dtype c = Numeric
      then Inr (Column (Category labels)
                  (map (\<lambda>x. case x of Num v \<Rightarrow> cut bins labels v | _ \<Rightarrow> NA) (cells c)))
      else Inl TypeError)"

text \<open>
  The derived columns of \<open>clean_nhamcs_data\<close>, each added only when its source column
  is present.
\<close>

fun to_numeric :: "(string \<Rightarrow> real option) \<Rightarrow> cell \<Rightarrow> cell" where
  "to_numeric parse NA = NA"
| "to_numeric parse (Num x) = Num x"
| "to_numeric parse (Str s) = (case parse s of None \<Rightarrow> NA | Some x \<Rightarrow> Num x)"
| "to_numeric parse (Ts d t) = Num (of_int ((d * 86400 + int t) * 1000000000))"

definition floordiv :: "real \<Rightarrow> cell \<Rightarrow> cell" where
  "floordiv k x = (case x of Num v \<Rightarrow> Num (of_int \<lfloor>v / k\<rfloor>) | _ \<Rightarrow> NA)"

definition flag :: "(cell \<Rightarrow> bool) \<Rightarrow> column \<Rightarrow> column" where
  "flag p c = Column Numeric (map (\<lambda>x. if p x then Num 1 else Num 0) (cells c))"

definition add_visit_date :: "pandas \<Rightarrow> table \<Rightarrow> table" where
  "add_visit_date lib T =
     (case map_of T ''VDATE'' of
        None \<Rightarrow> T
      | Some c \<Rightarrow> assign ''visit_date'' (Column Datetime (map (to_datetime (parse_date lib)) (cells c))) T)"

definition add_age_group :: "table \<Rightarrow> error + table" where
  "add_age_group T =
     (case map_of T ''AGE'' of
        None \<Rightarrow> Inr T
      | Some c \<Rightarrow>
          (case cut_col [0, 18, 45, 65, 120] [''0-17'', ''18-44'', ''45-64'', ''65+''] c of
             Inl e \<Rightarrow> Inl e
           | Inr g \<Rightarrow> Inr (assign ''age_group'' g T)))"

definition add_arrival :: "pandas \<Rightarrow> table \<Rightarrow> error + table" where
  "add_arrival lib T =
     (case map_of T ''ARRTIME'' of
        None \<Rightarrow> Inr T
      | Some c \<Rightarrow>
          (let T1 = assign ''arrival_hour''
                      (Column Numeric (map (\<lambda>x. floordiv 100 (to_numeric (parse_num lib) x)) (cells c))) T
           in case map_of T1 ''arrival_hour'' of
                None \<Rightarrow> Inl KeyError
              | Some h \<Rightarrow>
                  (case cut_col [0, 6, 12, 18, 24] [''Night'', ''Morning'', ''Afternoon'', ''Evening''] h of
                     Inl e \<Rightarrow> Inl e
                   | Inr g \<Rightarrow> Inr (assign ''time_of_day'' g T1))))"

definition add_high_acuity :: "table \<Rightarrow> table" where
  "add_high_acuity T =
     (case map_of T ''IMMEDR'' of
        None \<Rightarrow> T
      | Some c \<Rightarrow> assign ''high_acuity'' (flag (\<lambda>x. x = Num 1 \<or> x = Num 2) c) T)"

definition add_has_insurance :: "table \<Rightarrow> table" where
  "add_has_insurance T =
     (case map_of T ''PAYTYPER'' of
        None \<Rightarrow> T
      | Some c \<Rightarrow> assign ''has_insurance'' (flag (\<lambda>x. \<not> (x = Num 5 \<or> x = Num 6)) c) T)"

text \<open>
  \<open>sub in s\<close> on strings.
\<close>

fun contains :: "string \<Rightarrow> string \<Rightarrow> bool" where
  "contains sub [] = (sub = [])"
| "contains sub (c # cs) = (take (length sub) (c # cs) = sub \<or> contains sub cs)"

definition strip_diag :: "pandas \<Rightarrow> table \<Rightarrow> error + table" where
  "strip_diag lib T =
     for_cols (filter (contains ''DIAG'') (columns T))
       (\<lambda>c. Inr (Column Object (map (\<lambda>x. Str (strip (to_str lib x))) (cells c)))) T"

definition add_date_parts :: "table \<Rightarrow> error + table" where
  "add_date_parts T =
     (case map_of T ''visit_date'' of
        None \<Rightarrow> Inr T
      | Some c \<Rightarrow>
          (case dt_field dayofweek c of
             Inl e \<Rightarrow> Inl e
           | Inr w \<Rightarrow>
               (let T1 = assign ''day_of_week'' w T
                in case map_of T1 ''day_of_week'' of
                     None \<Rightarrow> Inl KeyError
                   | Some w1 \<Rightarrow>
                       (let T2 = assign ''is_weekend''
                                   (flag (\<lambda>x. case x of Num v \<Rightarrow> 5 \<le> v | _ \<Rightarrow> False) w1) T1
                        in case map_of T2 ''visit_date'' of
                             None \<Rightarrow> Inl KeyError
                           | Some c2 \<Rightarrow>
                               (case dt_field (\<lambda>d. snd (civil d)) c2 of
                                  Inl e \<Rightarrow> Inl e
                                | Inr m \<Rightarrow> Inr (assign ''month'' m T2))))))"

text \<open>
  The clip: \<open>if df[col].std() > 0: df[col] = df[col].clip(upper=df[col].quantile(0.99))\<close>.
  The standard deviation of fewer than two numbers is NaN, which is not positive.
\<close>

definition std_positive :: "column \<Rightarrow> bool" where
  "std_positive c = (case variance (nums c) of None \<Rightarrow> False | Some v \<Rightarrow> 0 < sqrt v)"

definition clip_upper :: "real \<Rightarrow> column \<Rightarrow> column" where
  "clip_upper u c = Column (dtype c) (map (\<lambda>x. case x of Num v \<Rightarrow> Num (min v u) | _ \<Rightarrow> x) (cells c))"

definition clip_col :: "column \<Rightarrow> column" where
  "clip_col c =
     (if std_positive c
      then (case quantile (99/100) (nums c) of None \<Rightarrow> c | Some u \<Rightarrow> clip_upper u c)
      else c)"

definition clip_outliers :: "table \<Rightarrow> error + table" where
  "clip_outliers T = for_cols (numeric_cols T) (\<lambda>c. Inr (clip_col c)) T"

text \<open>
  \<open>clean_nhamcs_data\<close> in its stages: imputation and duplicate removal, the derived
  columns, and the clip.
\<close>

definition dedup_missing :: "table \<Rightarrow> error + table" where
  "dedup_missing df = bind (handle_missing_values df) (\<lambda>T. Inr (drop_duplicates (columns T) T))"

definition pre_clip :: "pandas \<Rightarrow> table \<Rightarrow> error + table" where
  "pre_clip lib df =
     bind (dedup_missing df) (\<lambda>T.
     bind (add_age_group (add_visit_date lib T)) (\<lambda>T2.
     bind (add_arrival lib T2) (\<lambda>T3.
     bind (strip_diag lib (add_has_insurance (add_high_acuity T3))) add_date_parts)))"

definition clean_nhamcs_data :: "pandas \<Rightarrow> table \<Rightarrow> error + table" where
  "clean_nhamcs_data lib df = bind (pre_clip lib df) clip_outliers"

text \<open>What \<open>_handle_missing_values\<close> does to one column, by its dtype.\<close>

definition fill_col :: "column \<Rightarrow> error + column" where
  "fill_col c =
     (if dtype c = Numeric then Inr (fill_numeric c)
      else if dtype c = Object \<or> is_category (dtype c) then fill_categorical c
      else Inr c)"

text \<open>
  A name is a numeric column of a table. A stage is fine for a set of names when it keeps
  the column names distinct, keeps every column, and keeps a numeric column numeric unless
  its name is in the set.
\<close>

definition numeric_at :: "string \<Rightarrow> table \<Rightarrow> bool" where
  "numeric_at n T \<longleftrightarrow> (\<exists>c. map_of T n = Some c \<and> dtype c = Numeric)"

definition stage_ok :: "string set \<Rightarrow> table \<Rightarrow> table \<Rightarrow> bool" where
  "stage_ok A T T' \<longleftrightarrow>
     (distinct (columns T) \<longrightarrow> distinct (columns T')) \<and>
     set (columns T) \<subseteq> set (columns T') \<and>
     (\<forall>n. n \<notin> A \<longrightarrow> numeric_at n T \<longrightarrow> numeric_at n T')"

section \<open>Merging the sources\<close>

text \<open>
  \<open>groupby(df['date'].dt.date)\<close>: the rows are grouped by the calendar day of their
  timestamp; rows without a timestamp belong to no group, and the groups come in
  ascending order of the day.
\<close>

fun day_of :: "cell \<Rightarrow> int option" where
  "day_of (Ts d t) = Some d"
| "day_of c = None"

definition group_days :: "cell list \<Rightarrow> int list" where
  "group_days dates = sort (remdups (List.map_filter day_of dates))"

definition group_cells :: "cell list \<Rightarrow> int \<Rightarrow> cell list \<Rightarrow> cell list" where
  "group_cells dates d xs = keep_cells (map (\<lambda>c. day_of c = Some d) dates) xs"

text \<open>\<open>.size()\<close>: the number of rows of each group.\<close>

definition sizes :: "cell list \<Rightarrow> cell list" where
  "sizes dates = map (\<lambda>d. Num (real (length (group_cells dates d dates)))) (group_days dates)"

text \<open>
  A per-day aggregate is the list of its days (the index, turned into midnight timestamps
  by \<open>pd.to_datetime\<close>) and its columns, one cell per day. The \<open>.dt\<close> accessor is
  refused on a column that is not a datetime column.
\<close>

type_synonym daily = "int list \<times> table"

definition day_sizes :: "string \<Rightarrow> table \<Rightarrow> error + daily" where
  "day_sizes name src =
     (case map_of src ''date'' of
        None \<Rightarrow> Inl KeyError
      | Some dc \<Rightarrow>
          if dtype dc \<noteq> Datetime then Inl AttributeError
          else Inr (group_days (cells dc), [(name, Column Numeric (sizes (cells dc)))]))"

text \<open>
  The aggregations of \<open>.agg({...})\<close>: \<open>'count'\<close> counts the values that are not missing,
  \<open>'mean'\<close> and \<open>'sum'\<close> skip missing values (the mean of no value is missing, the sum of
  no value is 0) and refuse what is not a number, and \<open>', '.join\<close> refuses a group
  holding anything but strings.
\<close>

datatype aggfun = AggCount | AggMean | AggSum | AggJoin

fun strs :: "cell list \<Rightarrow> string list option" where
  "strs [] = Some []"
| "strs (Str s # cs) = map_option ((#) s) (strs cs)"
| "strs (c # cs) = None"

fun join_strs :: "string list \<Rightarrow> string" where
  "join_strs [] = []"
| "join_strs [s] = s"
| "join_strs (s # t # ss) = s @ '', '' @ join_strs (t # ss)"

definition numbers :: "dtype \<Rightarrow> cell list \<Rightarrow> real list option" where
  "numbers d xs =
     (if d = Numeric \<or> d = Object then all_nums (filter (\<lambda>x. x \<noteq> NA) xs) else None)"

fun agg_cell :: "aggfun \<Rightarrow> dtype \<Rightarrow> cell list \<Rightarrow> error + cell" where
  "agg_cell AggCount d xs = Inr (Num (real (length (filter (\<lambda>x. x \<noteq> NA) xs))))"
| "agg_cell AggMean d xs =
     (case numbers d xs of
        None \<Rightarrow> Inl TypeError
      | Some [] \<Rightarrow> Inr NA
      | Some (v # vs) \<Rightarrow> Inr (Num (mean (v # vs))))"
| "agg_cell AggSum d xs =
     (case numbers d xs of None \<Rightarrow> Inl TypeError | Some vs \<Rightarrow> Inr (Num (sum_list vs)))"
| "agg_cell AggJoin d xs =
     (case strs xs of None \<Rightarrow> Inl TypeError | Some ss \<Rightarrow> Inr (Str (join_strs ss)))"

fun collect :: "(error + 'a) list \<Rightarrow> error + 'a list" where
  "collect [] = Inr []"
| "collect (r # rs) = bind r (\<lambda>x. bind (collect rs) (\<lambda>xs. Inr (x # xs)))"

definition agg_column :: "aggfun \<Rightarrow> cell list \<Rightarrow> column \<Rightarrow> error + column" where
  "agg_column f dates c =
     bind (collect (map (\<lambda>d. agg_cell f (dtype c) (group_cells dates d (cells c))) (group_days dates)))
       (\<lambda>xs. Inr (Column (if f = AggJoin then Object else Numeric) xs))"

text \<open>
  \<open>groupby(...).agg(spec).rename(columns=...)\<close>: every entry of \<open>spec\<close> names a column of
  the source, its aggregation and the name of the resulting column. A column that the
  source lacks is a \<open>KeyError\<close>, raised before anything is computed.
\<close>

definition day_agg :: "(string \<times> aggfun \<times> string) list \<Rightarrow> table \<Rightarrow> error + daily" where
  "day_agg spec src =
     (case map_of src ''date'' of
        None \<Rightarrow> Inl KeyError
      | Some dc \<Rightarrow>
          if dtype dc \<noteq> Datetime then Inl AttributeError
          else if list_ex (\<lambda>(col, f, name). col \<notin> set (columns src)) spec then Inl KeyError
          else bind (collect (map (\<lambda>(col, f, name).
                        case map_of src col of
                          None \<Rightarrow> Inl KeyError
                        | Some c \<Rightarrow> bind (agg_column f (cells dc) c) (\<lambda>a. Inr (name, a))) spec))
                 (\<lambda>cols. Inr (group_days (cells dc), cols)))"

subsection \<open>Left join on the index of the aggregate\<close>

text \<open>
  The keys of a join are cells, or date objects (what \<open>.dt.date\<close> yields). In a left
  join every row of the left table gives one row for each row of the right table with an
  equal key, in the order of the right table, and one row with missing right-hand cells
  when there is none.
\<close>

datatype joinkey = Day int | Key cell

definition positions :: "joinkey \<Rightarrow> joinkey list \<Rightarrow> nat list" where
  "positions k ks = filter (\<lambda>j. ks ! j = k) [0..<length ks]"

definition join_plan :: "joinkey list \<Rightarrow> joinkey list \<Rightarrow> (nat \<times> nat option) list" where
  "join_plan lks rks =
     concat (map (\<lambda>i. case positions (lks ! i) rks of
                         [] \<Rightarrow> [(i, None)]
                       | j # js \<Rightarrow> map (\<lambda>j. (i, Some j)) (j # js)) [0..<length lks])"

definition take_left :: "(nat \<times> nat option) list \<Rightarrow> column \<Rightarrow> column" where
  "take_left plan c = Column (dtype c) (map (\<lambda>(i, r). cells c ! i) plan)"

definition take_right :: "(nat \<times> nat option) list \<Rightarrow> column \<Rightarrow> column" where
  "take_right plan c =
     Column (dtype c) (map (\<lambda>(i, r). case r of None \<Rightarrow> NA | Some j \<Rightarrow> cells c ! j) plan)"

text \<open>
  A column name borne by both tables gets the suffix \<open>_x\<close> on the left and \<open>_y\<close> on the
  right; the merge is refused when a suffix makes two names of one side equal.
\<close>

definition suffixed :: "string \<Rightarrow> string list \<Rightarrow> string list \<Rightarrow> string list" where
  "suffixed sfx both names = map (\<lambda>n. if n \<in> set both then n @ sfx else n) names"

definition new_dups :: "string list \<Rightarrow> string list \<Rightarrow> bool" where
  "new_dups old new =
     list_ex (\<lambda>i. new ! i \<in> set (take i new) \<and> old ! i \<notin> set (take i old)) [0..<length new]"

text \<open>
  \<open>left.merge(right, left_on=keys, right_index=True, how='left')\<close>. The keys of both
  sides must be of one dtype: a key column that is no datetime column, and date objects
  too, are refused against the datetime index with a \<open>ValueError\<close>, except when exactly
  one side has no row.
\<close>

definition merge_left ::
  "bool \<Rightarrow> joinkey list \<Rightarrow> joinkey list \<Rightarrow> table \<Rightarrow> table \<Rightarrow> error + table" where
  "merge_left same_dtype lks rks L R =
     (if \<not> same_dtype \<and> ((lks = []) = (rks = [])) then Inl ValueError
      else
        (let both = filter (\<lambda>n. n \<in> set (columns R)) (columns L);
             ln = suffixed ''_x'' both (columns L);
             rn = suffixed ''_y'' both (columns R);
             plan = join_plan lks rks
         in if new_dups (columns L) ln \<or> new_dups (columns R) rn then Inl ValueError
            else Inr (zip ln (map (\<lambda>(n, c). take_left plan c) L)
                      @ zip rn (map (\<lambda>(n, c). take_right plan c) R))))"

definition stamps :: "int list \<Rightarrow> joinkey list" where
  "stamps days = map (\<lambda>d. Key (Ts d 0)) days"

text \<open>
  \<open>DataFrame.fillna(0)\<close>: a missing cell becomes 0. A datetime column that has a missing
  cell becomes an object column; a categorical column refuses a value that is none of
  its categories.
\<close>

definition fillna0 :: "column \<Rightarrow> error + column" where
  "fillna0 c =
     (case dtype c of
        Category cats \<Rightarrow> Inl TypeError
      | Datetime \<Rightarrow> Inr (if NA \<in> set (cells c) then Column Object (cells (fillna (Num 0) c)) else c)
      | _ \<Rightarrow> Inr (fillna (Num 0) c))"

definition fillna_all :: "table \<Rightarrow> error + table" where
  "fillna_all T = collect (map (\<lambda>(n, c). bind (fillna0 c) (\<lambda>c'. Inr (n, c'))) T)"

text \<open>
  A source takes part when it is given and not empty: \<open>df is not None and not df.empty\<close>.
\<close>

definition with_source ::
  "table option \<Rightarrow> (table \<Rightarrow> table \<Rightarrow> error + table) \<Rightarrow> table \<Rightarrow> error + table" where
  "with_source src step merged =
     (case src of
        None \<Rightarrow> Inr merged
      | Some T \<Rightarrow> if nrows T = 0 then Inr merged else step T merged)"

subsection \<open>\<open>DataMerger.merge_all_sources\<close>\<close>

text \<open>
  \<open>merged_df.merge(agg, left_on='visit_date', right_index=True, how='left')\<close>: the key is
  the column \<open>visit_date\<close> as it is, time of day included.
\<close>

definition merge_on_visit_date :: "daily \<Rightarrow> table \<Rightarrow> error + table" where
  "merge_on_visit_date agg merged =
     (case map_of merged ''visit_date'' of
        None \<Rightarrow> Inl KeyError
      | Some v \<Rightarrow>
          merge_left (dtype v = Datetime) (map Key (cells v)) (stamps (fst agg)) merged (snd agg))"

definition join_all_sources ::
  "table \<Rightarrow> table option \<Rightarrow> table option \<Rightarrow> table option \<Rightarrow> error + table" where
  "join_all_sources nhamcs_df cdc_df reddit_df twitter_df =
     bind (with_source cdc_df
             (\<lambda>src merged. bind (day_sizes ''cdc_count'' src) (\<lambda>agg. merge_on_visit_date agg merged))
             nhamcs_df) (\<lambda>m1.
     bind (with_source reddit_df
             (\<lambda>src merged.
                bind (day_agg [(''sentiment_polarity'', AggMean, ''reddit_sentiment'')] src)
                  (\<lambda>agg. merge_on_visit_date agg merged))
             m1) (\<lambda>m2.
     with_source twitter_df
       (\<lambda>src merged. bind (day_sizes ''twitter_count'' src) (\<lambda>agg. merge_on_visit_date agg merged))
       m2))"

text \<open>The three joins, then \<open>merged_df.fillna(0)\<close> over the whole merged table.\<close>

definition merge_all_sources ::
  "table \<Rightarrow> table option \<Rightarrow> table option \<Rightarrow> table option \<Rightarrow> error + table" where
  "merge_all_sources nhamcs_df cdc_df reddit_df twitter_df =
     bind (join_all_sources nhamcs_df cdc_df reddit_df twitter_df) fillna_all"

subsection \<open>\<open>DataCleaner.merge_datasets\<close>\<close>

text \<open>
  The three aggregates, with the lags of the news counts and the 7-day rolling mean of the
  forum sentiment, both taken over the rows of the aggregate (one row per day with
  activity).
\<close>

definition cdc_agg :: "table \<Rightarrow> error + daily" where
  "cdc_agg src =
     bind (day_agg [(''title'', AggCount, ''news_mentions''), (''keywords'', AggJoin, ''keywords'')] src)
       (\<lambda>(days, agg). Inr (days, lags_for ''news_mentions'' [1, 3, 5, 7] agg))"

definition reddit_agg :: "table \<Rightarrow> error + daily" where
  "reddit_agg src =
     bind (day_agg [(''post_id'', AggCount, ''reddit_posts''),
                    (''sentiment_polarity'', AggMean, ''reddit_sentiment''),
                    (''symptoms_mentioned'', AggJoin, ''symptoms_mentioned'')] src)
       (\<lambda>(days, agg).
          case map_of agg ''reddit_sentiment'' of
            None \<Rightarrow> Inl KeyError
          | Some c \<Rightarrow> bind (roll_col RMean 7 c) (\<lambda>r. Inr (days, assign ''reddit_sentiment_7d'' r agg)))"

definition twitter_agg :: "table \<Rightarrow> error + daily" where
  "twitter_agg src =
     day_agg [(''tweet_id'', AggCount, ''tweet_count''),
              (''sentiment_polarity'', AggMean, ''twitter_sentiment''),
              (''likes'', AggSum, ''likes''),
              (''retweets'', AggSum, ''retweets'')] src"

text \<open>
  The join of one aggregate, done only when the merged table has the column
  \<open>visit_date\<close>: the key is \<open>merged_df['visit_date'].dt.date\<close>, date objects.
\<close>

fun date_key :: "cell \<Rightarrow> joinkey" where
  "date_key (Ts d t) = Day d"
| "date_key c = Key NA"

definition merge_on_day :: "daily \<Rightarrow> table \<Rightarrow> error + table" where
  "merge_on_day agg merged =
     (case map_of merged ''visit_date'' of
        None \<Rightarrow> Inr merged
      | Some v \<Rightarrow>
          if dtype v \<noteq> Datetime then Inl AttributeError
          else merge_left False (map date_key (cells v)) (stamps (fst agg)) merged (snd agg))"

definition join_sources ::
  "table \<Rightarrow> table option \<Rightarrow> table option \<Rightarrow> table option \<Rightarrow> error + table" where
  "join_sources nhamcs_df cdc_df reddit_df twitter_df =
     bind (with_source cdc_df (\<lambda>src merged. bind (cdc_agg src) (\<lambda>agg. merge_on_day agg merged))
             nhamcs_df) (\<lambda>m1.
     bind (with_source reddit_df (\<lambda>src merged. bind (reddit_agg src) (\<lambda>agg. merge_on_day agg merged))
             m1) (\<lambda>m2.
     with_source twitter_df (\<lambda>src merged. bind (twitter_agg src) (\<lambda>agg. merge_on_day agg merged))
       m2))"

text \<open>
  The columns that are filled with zero are chosen by name:
  \<open>any(x in col for x in ['news', 'reddit', 'twitter', 'sentiment'])\<close>.
\<close>

definition scraped_name :: "string \<Rightarrow> bool" where
  "scraped_name col = list_ex (\<lambda>x. contains x col) [''news'', ''reddit'', ''twitter'', ''sentiment'']"

definition scraped_cols :: "table \<Rightarrow> string list" where
  "scraped_cols T = filter scraped_name (columns T)"

text \<open>
  \<open>merged_df[scraped_cols] = merged_df[scraped_cols].fillna(0)\<close>: the chosen columns are
  replaced, one after the other, by their filled copies.
\<close>

definition fill_scraped :: "table \<Rightarrow> error + table" where
  "fill_scraped merged = for_cols (scraped_cols merged) fillna0 merged"

text \<open>The three joins, then the fill of the chosen columns.\<close>

definition merge_datasets ::
  "table \<Rightarrow> table option \<Rightarrow> table option \<Rightarrow> table option \<Rightarrow> error + table" where
  "merge_datasets nhamcs_df cdc_df reddit_df twitter_df =
     bind (join_sources nhamcs_df cdc_df reddit_df twitter_df) fill_scraped"

text \<open>
  The names of the columns that the joins attach, in \<open>merge_all_sources\<close> and in
  \<open>merge_datasets\<close>.
\<close>

definition attached_all :: "string list" where
  "attached_all = [''cdc_count'', ''reddit_sentiment'', ''twitter_count'']"


section \<open>Properties of column names\<close>

lemma split_last_sep:
  "c \<notin> set y \<Longrightarrow> c \<notin> set y' \<Longrightarrow> x @ c # y = x' @ c # y' \<Longrightarrow> x = x' \<and> y = y'"
proof (induction x arbitrary: x')
  case Nil
  then show ?case by (cases x') auto
next
  case (Cons a x)
  then show ?case by (cases x') auto
qed

lemma digit_char_inj: "a < 10 \<Longrightarrow> b < 10 \<Longrightarrow> digit_char a = digit_char b \<Longrightarrow> a = b"
proof -
  assume a: "a < 10" and b: "b < 10" and e: "digit_char a = digit_char b"
  have d: "distinct ''0123456789''" by simp
  have "a < length ''0123456789''" "b < length ''0123456789''" using a b by simp_all
  with d e show ?thesis unfolding digit_char_def by (simp only: nth_eq_iff_index_eq)
qed

lemma digit_char_set: "a < 10 \<Longrightarrow> digit_char a \<in> set ''0123456789''"
  unfolding digit_char_def by (rule nth_mem) simp

lemma str_nat_set: "set (str_nat n) \<subseteq> set ''0123456789''"
proof (induction n rule: str_nat.induct)
  case (1 n)
  show ?case
  proof (cases "n < 10")
    case True
    then show ?thesis using digit_char_set[of n] by (subst str_nat.simps) simp
  next
    case False
    have "n mod 10 < 10" by simp
    then have "digit_char (n mod 10) \<in> set ''0123456789''" by (rule digit_char_set)
    with False 1 show ?thesis by (subst str_nat.simps) simp
  qed
qed

lemma str_nat_nonempty: "str_nat n \<noteq> []"
  by (subst str_nat.simps) simp

lemma str_nat_inj: "str_nat n = str_nat m \<Longrightarrow> n = m"
proof (induction n arbitrary: m rule: str_nat.induct)
  case (1 n)
  show ?case
  proof (cases "n < 10")
    case True
    show ?thesis
    proof (cases "m < 10")
      case mT: True
      from 1(2) True mT have "digit_char n = digit_char m"
        by (simp add: str_nat.simps[of n] str_nat.simps[of m])
      with True mT show ?thesis by (rule digit_char_inj)
    next
      case mF: False
      from 1(2) True mF have "[digit_char n] = str_nat (m div 10) @ [digit_char (m mod 10)]"
        by (simp add: str_nat.simps[of n] str_nat.simps[of m])
      then have "str_nat (m div 10) = []" by simp
      then show ?thesis using str_nat_nonempty by blast
    qed
  next
    case False
    show ?thesis
    proof (cases "m < 10")
      case mT: True
      from 1(2) False mT have "str_nat (n div 10) @ [digit_char (n mod 10)] = [digit_char m]"
        by (simp add: str_nat.simps[of n] str_nat.simps[of m])
      then have "str_nat (n div 10) = []" by simp
      then show ?thesis using str_nat_nonempty by blast
    next
      case mF: False
      from 1(2) False mF have e: "str_nat (n div 10) @ [digit_char (n mod 10)] = str_nat (m div 10) @ [digit_char (m mod 10)]"
        by (simp add: str_nat.simps[of n] str_nat.simps[of m])
      then have e1: "str_nat (n div 10) = str_nat (m div 10)" and e2: "digit_char (n mod 10) = digit_char (m mod 10)"
        by simp_all
      from 1(1)[OF False e1] have d: "n div 10 = m div 10" .
      have "n mod 10 = m mod 10" using e2 by (intro digit_char_inj) simp_all
      with d show ?thesis by (metis div_mult_mod_eq)
    qed
  qed
qed

lemma str_int_inj: "str_int i = str_int j \<Longrightarrow> i = j"
proof -
  assume e: "str_int i = str_int j"
  have nm: "hd (str_nat n) \<noteq> CHR ''-''" for n
  proof -
    have "hd (str_nat n) \<in> set (str_nat n)" using str_nat_nonempty by simp
    then have "hd (str_nat n) \<in> set ''0123456789''" using str_nat_set by blast
    then show ?thesis by auto
  qed
  show ?thesis
  proof (cases "i < 0")
    case True
    show ?thesis
    proof (cases "j < 0")
      case jT: True
      with True e have "str_nat (nat (- i)) = str_nat (nat (- j))" by (simp add: str_int_def)
      then have "nat (- i) = nat (- j)" by (rule str_nat_inj)
      with True jT show ?thesis by simp
    next
      case jF: False
      with True e have "CHR ''-'' # str_nat (nat (- i)) = str_nat (nat j)" by (simp add: str_int_def)
      then have "hd (str_nat (nat j)) = CHR ''-''" by (metis list.sel(1))
      with nm show ?thesis by blast
    qed
  next
    case False
    show ?thesis
    proof (cases "j < 0")
      case jT: True
      with False e have "str_nat (nat i) = CHR ''-'' # str_nat (nat (- j))" by (simp add: str_int_def)
      then have "hd (str_nat (nat i)) = CHR ''-''" by (metis list.sel(1))
      with nm show ?thesis by blast
    next
      case jF: False
      with False e have "str_nat (nat i) = str_nat (nat j)" by (simp add: str_int_def)
      then have "nat i = nat j" by (rule str_nat_inj)
      with False jF show ?thesis by simp
    qed
  qed
qed

lemma str_int_no_underscore: "CHR ''_'' \<notin> set (str_int i)"
proof
  assume u: "CHR ''_'' \<in> set (str_int i)"
  then have "CHR ''_'' \<in> set (str_nat (nat (- i))) \<or> CHR ''_'' \<in> set (str_nat (nat i))"
    by (simp add: str_int_def split: if_splits)
  then have "CHR ''_'' \<in> set ''0123456789''" using str_nat_set by blast
  then show False by simp
qed

lemma lag_name_inj: "lag_name c k = lag_name c' k' \<Longrightarrow> c = c' \<and> k = k'"
proof -
  assume "lag_name c k = lag_name c' k'"
  then have e: "c @ CHR ''_'' # (''lag'' @ str_int k) = c' @ CHR ''_'' # (''lag'' @ str_int k')"
    by (simp add: lag_name_def)
  have "CHR ''_'' \<notin> set (''lag'' @ str_int k)" "CHR ''_'' \<notin> set (''lag'' @ str_int k')"
    using str_int_no_underscore by simp_all
  from split_last_sep[OF this e] show ?thesis using str_int_inj by simp
qed

section \<open>Lagged features\<close>

lemma map_of_assign: "map_of (assign n c T) m = (if m = n then Some c else map_of T m)"
  by (induction T) auto

lemma in_columns_iff: "col \<in> set (columns T) \<longleftrightarrow> map_of T col \<noteq> None"
  by (simp add: columns_def map_of_eq_None_iff)

lemma lag_name_neq: "lag_name col k \<noteq> col"
  by (simp add: lag_name_def)

lemma lags_for_frame:
  "n \<notin> lag_name col ` set lags \<Longrightarrow> map_of (lags_for col lags T) n = map_of T n"
  by (induction lags arbitrary: T) (auto simp: map_of_assign split: option.splits)

lemma lags_for_result:
  "map_of T col = Some c \<Longrightarrow> k \<in> set lags \<Longrightarrow>
   map_of (lags_for col lags T) (lag_name col k) = Some (shift_col k c)"
proof (induction lags arbitrary: T)
  case Nil
  then show ?case by simp
next
  case (Cons lag lags)
  let ?T = "assign (lag_name col lag) (shift_col lag c) T"
  have keep: "map_of ?T col = Some c"
    using Cons.prems(1) lag_name_neq[of col lag] by (simp add: map_of_assign)
  have step: "lags_for col (lag # lags) T = lags_for col lags ?T"
    using Cons.prems(1) by simp
  show ?case
  proof (cases "k \<in> set lags")
    case True
    from Cons.IH[OF keep True] step show ?thesis by simp
  next
    case False
    with Cons.prems(2) have k: "k = lag" by simp
    have "lag_name col k \<notin> lag_name col ` set lags"
      using False lag_name_inj by blast
    then have "map_of (lags_for col lags ?T) (lag_name col k) = map_of ?T (lag_name col k)"
      by (rule lags_for_frame)
    with k step show ?thesis by (simp add: map_of_assign)
  qed
qed

lemma create_lagged_features_frame:
  "(\<forall>c\<in>set value_cols. \<forall>k\<in>set lags. n \<noteq> lag_name c k) \<Longrightarrow>
   map_of (create_lagged_features T value_cols lags) n = map_of T n"
proof (induction value_cols arbitrary: T)
  case Nil
  then show ?case by simp
next
  case (Cons col value_cols)
  have "n \<notin> lag_name col ` set lags" using Cons.prems by auto
  then have "map_of (lags_for col lags T) n = map_of T n" by (rule lags_for_frame)
  moreover have "\<forall>c\<in>set value_cols. \<forall>k\<in>set lags. n \<noteq> lag_name c k" using Cons.prems by simp
  ultimately show ?case using Cons.IH by simp
qed

lemma create_lagged_features_result:
  assumes noclash: "\<forall>c'\<in>V. \<forall>k'\<in>set lags. lag_name c' k' \<notin> V"
  shows "set value_cols \<subseteq> V \<Longrightarrow> col \<in> set value_cols \<Longrightarrow> map_of T col = Some c \<Longrightarrow>
         k \<in> set lags \<Longrightarrow>
         map_of (create_lagged_features T value_cols lags) (lag_name col k) = Some (shift_col k c)"
proof (induction value_cols arbitrary: T)
  case Nil
  then show ?case by simp
next
  case (Cons x xs)
  let ?T = "if x \<in> set (columns T) then lags_for x lags T else T"
  have xV: "x \<in> V" and xsV: "set xs \<subseteq> V" and colV: "col \<in> V" using Cons.prems(1,2) by auto
  have "col \<notin> lag_name x ` set lags" using noclash xV colV by blast
  then have keep: "map_of ?T col = Some c" using Cons.prems(3) by (simp add: lags_for_frame)
  show ?case
  proof (cases "col \<in> set xs")
    case True
    from Cons.IH[OF xsV True keep Cons.prems(4)] show ?thesis by simp
  next
    case False
    with Cons.prems(2) have cx: "col = x" by simp
    have pres: "x \<in> set (columns T)" using Cons.prems(3) cx by (simp add: in_columns_iff)
    have here: "map_of ?T (lag_name col k) = Some (shift_col k c)"
      using pres cx lags_for_result[OF _ Cons.prems(4), of T col c] Cons.prems(3) by simp
    have "\<forall>c'\<in>set xs. \<forall>k'\<in>set lags. lag_name col k \<noteq> lag_name c' k'"
      using False lag_name_inj by blast
    then have "map_of (create_lagged_features ?T xs lags) (lag_name col k) = map_of ?T (lag_name col k)"
      by (rule create_lagged_features_frame)
    with here show ?thesis by simp
  qed
qed

lemma length_shift: "length (shift k xs) = length xs"
  by (auto simp: shift_def Let_def)

lemma shift_nth:
  "0 \<le> k \<Longrightarrow> i < length xs \<Longrightarrow> shift k xs ! i = (if i < nat k then NA else xs ! (i - nat k))"
  by (auto simp: shift_def Let_def nth_append)

text \<open>
  Claim C5, as amended. Let \<open>col\<close> be a requested value column present in the input
  table and \<open>k \<ge> 0\<close> a requested lag, and let no requested value column bear the name
  of a generated column \<open>c_lag<k'>\<close> (for a requested column \<open>c\<close> and a requested lag
  \<open>k'\<close>). Then the output of \<open>create_lagged_features\<close> has the column
  \<open>col_lag<k>\<close>, as long as \<open>col\<close>, whose row \<open>i\<close> is missing for
  \<open>i < k\<close> and holds the input column's value at position \<open>i - k\<close> otherwise. For
  the series 10, 20, 30, 40 lag 2 yields missing, missing, 10, 20. The values are compared
  as numbers; nothing is said of the dtype of the new column.
\<close>

theorem create_lagged_features_lag:
  assumes "col \<in> set value_cols" and "map_of T col = Some c" and "k \<in> set lags" and "0 \<le> k"
    and "\<forall>c'\<in>set value_cols. \<forall>k'\<in>set lags. lag_name c' k' \<notin> set value_cols"
  shows "\<exists>c'. map_of (create_lagged_features T value_cols lags) (lag_name col k) = Some c' \<and>
           length (cells c') = length (cells c) \<and>
           (\<forall>i<length (cells c). cells c' ! i = (if i < nat k then NA else cells c ! (i - nat k)))"
proof -
  have "map_of (create_lagged_features T value_cols lags) (lag_name col k) = Some (shift_col k c)"
    using create_lagged_features_result[OF assms(5) _ assms(1,2,3)] by simp
  then show ?thesis using assms(4) by (simp add: shift_col_def length_shift shift_nth)
qed

lemmas lag_eval = lag_name_def str_int_def str_nat.simps digit_char_def columns_def shift_col_def shift_def

theorem create_lagged_features_lag_witness:
  "map_option cells (map_of (create_lagged_features
      [(''visits'', Column Numeric [Num 10, Num 20, Num 30, Num 40])]
      [''visits''] [1, 2]) ''visits_lag2'') = Some [NA, NA, Num 10, Num 20]"
proof -
  let ?T = "[(''visits'', Column Numeric [Num 10, Num 20, Num 30, Num 40])]"
  have h1: "''visits'' \<in> set [''visits'']" by simp
  have h2: "map_of ?T ''visits'' = Some (Column Numeric [Num 10, Num 20, Num 30, Num 40])" by simp
  have h3: "(2::int) \<in> set [1, 2]" by simp
  have h4: "(0::int) \<le> 2" by simp
  have h5: "\<forall>c'\<in>set [''visits'']. \<forall>k'\<in>set [1, 2::int]. lag_name c' k' \<notin> set [''visits'']"
    by (simp add: lag_eval)
  have n: "lag_name ''visits'' 2 = ''visits_lag2''" by (simp add: lag_eval)
  from create_lagged_features_lag[OF h1 h2 h3 h4 h5] n show ?thesis
    by (simp add: lag_eval)
qed

text \<open>
  Without the condition on names the claim fails: when \<open>a_lag1\<close> is requested after
  \<open>a\<close>, the lag of \<open>a\<close> overwrites the input column \<open>a_lag1\<close> before it is
  shifted, so row 1 of \<open>a_lag1_lag1\<close> is missing, where the input column's value one
  row earlier is 7.
\<close>

theorem create_lagged_features_lag_counterexample:
  "map_of (create_lagged_features
      [(''a'', Column Numeric [Num 10, Num 20, Num 30]),
       (''a_lag1'', Column Numeric [Num 7, Num 8, Num 9])]
      [''a'', ''a_lag1''] [1]) ''a_lag1_lag1'' = Some (Column Numeric [NA, NA, Num 10])
   \<and> shift 1 [Num 7, Num 8, Num 9] = [NA, Num 7, Num 8]"
  by (simp add: lag_eval)

section \<open>Rolling-window features\<close>

lemma stat_name_no_underscore: "CHR ''_'' \<notin> set (stat_name s)"
  by (cases s) simp_all

lemma stat_name_inj: "stat_name s = stat_name s' \<Longrightarrow> s = s'"
  by (cases s; cases s') simp_all

lemma rolling_name_inj:
  assumes "rolling_name c s w = rolling_name c' s' w'"
  shows "c = c' \<and> s = s' \<and> w = w'"
proof -
  from assms have e: "(c @ ''_rolling_'' @ stat_name s) @ CHR ''_'' # (str_int w @ ''d'')
      = (c' @ ''_rolling_'' @ stat_name s') @ CHR ''_'' # (str_int w' @ ''d'')"
    by (simp add: rolling_name_def)
  have "CHR ''_'' \<notin> set (str_int w @ ''d'')" "CHR ''_'' \<notin> set (str_int w' @ ''d'')"
    using str_int_no_underscore by simp_all
  from split_last_sep[OF this e]
  have e1: "c @ ''_rolling_'' @ stat_name s = c' @ ''_rolling_'' @ stat_name s'"
    and e2: "str_int w = str_int w'" by simp_all
  from e1 have e3: "(c @ ''_rolling'') @ CHR ''_'' # stat_name s = (c' @ ''_rolling'') @ CHR ''_'' # stat_name s'"
    by simp
  from split_last_sep[OF stat_name_no_underscore stat_name_no_underscore e3]
  have "c = c'" "stat_name s = stat_name s'" by simp_all
  with e2 show ?thesis using str_int_inj stat_name_inj by blast
qed

lemma rolling_name_neq: "rolling_name col s w \<noteq> col"
  by (simp add: rolling_name_def)

lemma rolling_stats_frame:
  "rolling_stats col w ss T = Inr T' \<Longrightarrow> n \<notin> (\<lambda>s. rolling_name col s w) ` set ss \<Longrightarrow>
   map_of T' n = map_of T n"
  by (induction ss arbitrary: T) (auto simp: map_of_assign split: option.splits sum.splits)

lemma rolling_stats_result:
  "rolling_stats col w ss T = Inr T' \<Longrightarrow> map_of T col = Some c \<Longrightarrow> s \<in> set ss \<Longrightarrow>
   map_of T' (rolling_name col s w) = Some (Column Numeric (rolling (nat w) (stat_cell s) (cells c)))"
proof (induction ss arbitrary: T)
  case Nil
  then show ?case by simp
next
  case (Cons a ss)
  from Cons.prems(1,2) obtain r where r: "roll_col a w c = Inr r"
    and rest: "rolling_stats col w ss (assign (rolling_name col a w) r T) = Inr T'"
    by (auto split: sum.splits)
  let ?T = "assign (rolling_name col a w) r T"
  have keep: "map_of ?T col = Some c"
    using Cons.prems(2) rolling_name_neq[of col a w] by (simp add: map_of_assign)
  show ?case
  proof (cases "s \<in> set ss")
    case True
    from Cons.IH[OF rest keep True] show ?thesis .
  next
    case False
    with Cons.prems(3) have sa: "s = a" by simp
    have "rolling_name col s w \<notin> (\<lambda>s. rolling_name col s w) ` set ss"
      using False rolling_name_inj by blast
    from rolling_stats_frame[OF rest this]
    have "map_of T' (rolling_name col s w) = Some r" using sa by (simp add: map_of_assign)
    moreover have "r = Column Numeric (rolling (nat w) (stat_cell s) (cells c))"
      using r sa by (auto simp: roll_col_def split: if_splits)
    ultimately show ?thesis by simp
  qed
qed

lemma rolling_stats_ok:
  "map_of T col = Some c \<Longrightarrow> dtype c = Numeric \<Longrightarrow> 0 \<le> w \<Longrightarrow> \<exists>T'. rolling_stats col w ss T = Inr T'"
proof (induction ss arbitrary: T)
  case Nil
  then show ?case by simp
next
  case (Cons a ss)
  have r: "roll_col a w c = Inr (Column Numeric (rolling (nat w) (stat_cell a) (cells c)))"
    using Cons.prems(2,3) by (simp add: roll_col_def)
  let ?T = "assign (rolling_name col a w) (Column Numeric (rolling (nat w) (stat_cell a) (cells c))) T"
  have keep: "map_of ?T col = Some c"
    using Cons.prems(1) rolling_name_neq[of col a w] by (simp add: map_of_assign)
  from Cons.IH[OF keep Cons.prems(2,3)] show ?case using Cons.prems(1) r by simp
qed

lemma rolling_for_frame:
  "rolling_for col ws T = Inr T' \<Longrightarrow> (\<forall>w\<in>set ws. \<forall>s. n \<noteq> rolling_name col s w) \<Longrightarrow>
   map_of T' n = map_of T n"
proof (induction ws arbitrary: T)
  case Nil
  then show ?case by simp
next
  case (Cons w ws)
  from Cons.prems(1) obtain T1 where
    a: "rolling_stats col w [RMean, RStd, RMax, RMin] T = Inr T1" and b: "rolling_for col ws T1 = Inr T'"
    by (auto split: sum.splits)
  have "n \<notin> (\<lambda>s. rolling_name col s w) ` set [RMean, RStd, RMax, RMin]" using Cons.prems(2) by auto
  from rolling_stats_frame[OF a this] have "map_of T1 n = map_of T n" .
  moreover have "map_of T' n = map_of T1 n" using Cons.IH[OF b] Cons.prems(2) by simp
  ultimately show ?case by simp
qed

lemma stat_in_all: "s \<in> set [RMean, RStd, RMax, RMin]"
  by (cases s) simp_all

lemma rolling_for_result:
  "rolling_for col ws T = Inr T' \<Longrightarrow> map_of T col = Some c \<Longrightarrow> w \<in> set ws \<Longrightarrow>
   map_of T' (rolling_name col s w) = Some (Column Numeric (rolling (nat w) (stat_cell s) (cells c)))"
proof (induction ws arbitrary: T)
  case Nil
  then show ?case by simp
next
  case (Cons a ws)
  from Cons.prems(1) obtain T1 where
    a: "rolling_stats col a [RMean, RStd, RMax, RMin] T = Inr T1" and b: "rolling_for col ws T1 = Inr T'"
    by (auto split: sum.splits)
  have "col \<notin> (\<lambda>s. rolling_name col s a) ` set [RMean, RStd, RMax, RMin]"
    by (auto simp: rolling_name_def)
  from rolling_stats_frame[OF a this] Cons.prems(2) have keep: "map_of T1 col = Some c" by simp
  show ?case
  proof (cases "w \<in> set ws")
    case True
    from Cons.IH[OF b keep True] show ?thesis .
  next
    case False
    with Cons.prems(3) have wa: "w = a" by simp
    have here: "map_of T1 (rolling_name col s w) = Some (Column Numeric (rolling (nat w) (stat_cell s) (cells c)))"
      using rolling_stats_result[OF a Cons.prems(2) stat_in_all] wa by simp
    have "\<forall>w'\<in>set ws. \<forall>s'. rolling_name col s w \<noteq> rolling_name col s' w'"
      using False rolling_name_inj by blast
    from rolling_for_frame[OF b this] here show ?thesis by simp
  qed
qed

lemma rolling_for_ok:
  "map_of T col = Some c \<Longrightarrow> dtype c = Numeric \<Longrightarrow> \<forall>w\<in>set ws. 0 \<le> w \<Longrightarrow> \<exists>T'. rolling_for col ws T = Inr T'"
proof (induction ws arbitrary: T)
  case Nil
  then show ?case by simp
next
  case (Cons a ws)
  have "0 \<le> a" using Cons.prems(3) by simp
  from rolling_stats_ok[OF Cons.prems(1,2) this]
  obtain T1 where a: "rolling_stats col a [RMean, RStd, RMax, RMin] T = Inr T1" by blast
  have "col \<notin> (\<lambda>s. rolling_name col s a) ` set [RMean, RStd, RMax, RMin]"
    by (auto simp: rolling_name_def)
  from rolling_stats_frame[OF a this] Cons.prems(1) have keep: "map_of T1 col = Some c" by simp
  have "\<forall>w\<in>set ws. 0 \<le> w" using Cons.prems(3) by simp
  from Cons.IH[OF keep Cons.prems(2) this] a show ?case by simp
qed


lemma create_rolling_features_frame:
  "create_rolling_features T value_cols ws = Inr T' \<Longrightarrow>
   (\<forall>c\<in>set value_cols. \<forall>w\<in>set ws. \<forall>s. n \<noteq> rolling_name c s w) \<Longrightarrow>
   map_of T' n = map_of T n"
proof (induction value_cols arbitrary: T)
  case Nil
  then show ?case by simp
next
  case (Cons x xs)
  from Cons.prems(1) obtain T1 where
    a: "(if x \<in> set (columns T) then rolling_for x ws T else Inr T) = Inr T1"
    and b: "create_rolling_features T1 xs ws = Inr T'"
    by (auto split: sum.splits)
  have "map_of T1 n = map_of T n"
  proof (cases "x \<in> set (columns T)")
    case True
    with a have "rolling_for x ws T = Inr T1" by simp
    moreover have "\<forall>w\<in>set ws. \<forall>s. n \<noteq> rolling_name x s w" using Cons.prems(2) by simp
    ultimately show ?thesis by (rule rolling_for_frame)
  next
    case False
    with a show ?thesis by simp
  qed
  moreover have "map_of T' n = map_of T1 n" using Cons.IH[OF b] Cons.prems(2) by simp
  ultimately show ?case by simp
qed

lemma rolling_step_keeps:
  assumes noclash: "\<forall>c'\<in>V. \<forall>w'\<in>set ws. \<forall>s. rolling_name c' s w' \<notin> V"
    and "x \<in> V" and "v \<in> V"
    and "(if x \<in> set (columns T) then rolling_for x ws T else Inr T) = Inr T1"
  shows "map_of T1 v = map_of T v"
proof (cases "x \<in> set (columns T)")
  case True
  with assms(4) have "rolling_for x ws T = Inr T1" by simp
  moreover have "\<forall>w\<in>set ws. \<forall>s. v \<noteq> rolling_name x s w" using noclash assms(2,3) by blast
  ultimately show ?thesis by (rule rolling_for_frame)
next
  case False
  with assms(4) show ?thesis by simp
qed

lemma create_rolling_features_result:
  assumes noclash: "\<forall>c'\<in>V. \<forall>w'\<in>set ws. \<forall>s. rolling_name c' s w' \<notin> V"
  shows "create_rolling_features T value_cols ws = Inr T' \<Longrightarrow> set value_cols \<subseteq> V \<Longrightarrow>
         col \<in> set value_cols \<Longrightarrow> map_of T col = Some c \<Longrightarrow> w \<in> set ws \<Longrightarrow>
         map_of T' (rolling_name col s w)
           = Some (Column Numeric (rolling (nat w) (stat_cell s) (cells c)))"
proof (induction value_cols arbitrary: T)
  case Nil
  then show ?case by simp
next
  case (Cons x xs)
  from Cons.prems(1) obtain T1 where
    a: "(if x \<in> set (columns T) then rolling_for x ws T else Inr T) = Inr T1"
    and b: "create_rolling_features T1 xs ws = Inr T'"
    by (auto split: sum.splits)
  have xV: "x \<in> V" and xsV: "set xs \<subseteq> V" and colV: "col \<in> V" using Cons.prems(2,3) by auto
  have keep: "map_of T1 col = Some c"
    using rolling_step_keeps[OF noclash xV colV a] Cons.prems(4) by simp
  show ?case
  proof (cases "col \<in> set xs")
    case True
    from Cons.IH[OF b xsV True keep Cons.prems(5)] show ?thesis .
  next
    case False
    with Cons.prems(3) have cx: "col = x" by simp
    have "x \<in> set (columns T)" using Cons.prems(4) cx by (simp add: in_columns_iff)
    with a cx have "rolling_for col ws T = Inr T1" by simp
    from rolling_for_result[OF this Cons.prems(4,5)]
    have here: "map_of T1 (rolling_name col s w)
        = Some (Column Numeric (rolling (nat w) (stat_cell s) (cells c)))" .
    have "\<forall>c'\<in>set xs. \<forall>w'\<in>set ws. \<forall>s'. rolling_name col s w \<noteq> rolling_name c' s' w'"
      using False rolling_name_inj by blast
    from create_rolling_features_frame[OF b this] here show ?thesis by simp
  qed
qed

lemma create_rolling_features_ok:
  assumes noclash: "\<forall>c'\<in>V. \<forall>w'\<in>set ws. \<forall>s. rolling_name c' s w' \<notin> V"
    and nonneg: "\<forall>w\<in>set ws. 0 \<le> w"
  shows "set value_cols \<subseteq> V \<Longrightarrow> (\<forall>v\<in>V. \<forall>c. map_of T v = Some c \<longrightarrow> dtype c = Numeric) \<Longrightarrow>
         \<exists>T'. create_rolling_features T value_cols ws = Inr T'"
proof (induction value_cols arbitrary: T)
  case Nil
  then show ?case by simp
next
  case (Cons x xs)
  have xV: "x \<in> V" and xsV: "set xs \<subseteq> V" using Cons.prems(1) by auto
  have "\<exists>T1. (if x \<in> set (columns T) then rolling_for x ws T else Inr T) = Inr T1"
  proof (cases "x \<in> set (columns T)")
    case True
    then obtain c where c: "map_of T x = Some c" by (auto simp: in_columns_iff)
    with Cons.prems(2) xV have "dtype c = Numeric" by blast
    from rolling_for_ok[OF c this nonneg] True show ?thesis by simp
  next
    case False
    then show ?thesis by simp
  qed
  then obtain T1 where a: "(if x \<in> set (columns T) then rolling_for x ws T else Inr T) = Inr T1"
    by blast
  have "\<forall>v\<in>V. \<forall>c. map_of T1 v = Some c \<longrightarrow> dtype c = Numeric"
    using rolling_step_keeps[OF noclash xV _ a] Cons.prems(2) by simp
  from Cons.IH[OF xsV this] a show ?case by simp
qed

lemma length_rolling: "length (rolling w f xs) = length xs"
  by (simp add: rolling_def)

lemma rolling_nth:
  "0 < w \<Longrightarrow> i < length xs \<Longrightarrow>
   rolling w f xs ! i =
     (if i + 1 < w then NA
      else case all_nums (take w (drop (i + 1 - w) xs)) of None \<Rightarrow> NA | Some ws \<Rightarrow> f ws)"
  by (simp add: rolling_def window_at_def)

text \<open>
  Claim C6, as amended. Let the requested windows be non-negative, the requested value
  columns present in the input table be numeric, and no requested value column bear the
  name of a generated column \<open>c_rolling_<stat>_<w'>d\<close>. Then \<open>create_rolling_features\<close>
  returns a table, and for a requested column \<open>col\<close> present in the input, a requested
  window \<open>w > 0\<close> and each statistic (mean, std, max, min) that table has the numeric
  column \<open>col_rolling_<stat>_<w>d\<close> whose row \<open>i\<close> is missing for \<open>i < w - 1\<close> and
  otherwise holds the statistic of the input column over rows \<open>i - w + 1\<close> to \<open>i\<close>
  (missing when one of these rows is missing). For 1, 2, 3, 4, 5 and window 3 the rolling
  mean is missing, missing, 2, 3, 4.
\<close>

theorem create_rolling_features_window:
  assumes "col \<in> set value_cols" and "map_of T col = Some c" and "w \<in> set windows" and "0 < w"
    and "\<forall>w'\<in>set windows. 0 \<le> w'"
    and "\<forall>v\<in>set value_cols. \<forall>c'. map_of T v = Some c' \<longrightarrow> dtype c' = Numeric"
    and "\<forall>c'\<in>set value_cols. \<forall>w'\<in>set windows. \<forall>s'. rolling_name c' s' w' \<notin> set value_cols"
  shows "\<exists>out r. create_rolling_features T value_cols windows = Inr out \<and>
           map_of out (rolling_name col s w) = Some r \<and>
           dtype r = Numeric \<and> length (cells r) = length (cells c) \<and>
           (\<forall>i<length (cells c). cells r ! i =
              (if i + 1 < nat w then NA
               else case all_nums (take (nat w) (drop (i + 1 - nat w) (cells c))) of
                      None \<Rightarrow> NA | Some xs \<Rightarrow> stat_cell s xs))"
proof -
  from create_rolling_features_ok[OF assms(7,5) subset_refl assms(6)]
  obtain out where out: "create_rolling_features T value_cols windows = Inr out" by blast
  from create_rolling_features_result[OF assms(7) out subset_refl assms(1,2,3)]
  have r: "map_of out (rolling_name col s w)
      = Some (Column Numeric (rolling (nat w) (stat_cell s) (cells c)))" .
  have "0 < nat w" using assms(4) by simp
  then show ?thesis using out r by (simp add: length_rolling rolling_nth)
qed

lemmas roll_eval = rolling_name_def str_int_def str_nat.simps digit_char_def columns_def
  roll_col_def rolling_def window_at_def mean_def variance_def get_col_def

theorem create_rolling_features_window_witness:
  "get_col (create_rolling_features [(''x'', Column Numeric [Num 1, Num 2, Num 3, Num 4, Num 5])]
      [''x''] [3]) ''x_rolling_mean_3d'' = Some (Column Numeric [NA, NA, Num 2, Num 3, Num 4])"
proof -
  let ?T = "[(''x'', Column Numeric [Num 1, Num 2, Num 3, Num 4, Num 5])]"
  have h1: "''x'' \<in> set [''x'']" by simp
  have h2: "map_of ?T ''x'' = Some (Column Numeric [Num 1, Num 2, Num 3, Num 4, Num 5])" by simp
  have h3: "(3::int) \<in> set [3]" by simp
  have h4: "(0::int) < 3" by simp
  have h5: "\<forall>w'\<in>set [3::int]. 0 \<le> w'" by simp
  have h6: "\<forall>v\<in>set [''x'']. \<forall>c'. map_of ?T v = Some c' \<longrightarrow> dtype c' = Numeric" by auto
  have h7: "\<forall>c'\<in>set [''x'']. \<forall>w'\<in>set [3::int]. \<forall>s'. rolling_name c' s' w' \<notin> set [''x'']"
    by (simp add: rolling_name_def)
  have n: "rolling_name ''x'' RMean 3 = ''x_rolling_mean_3d''" by (simp add: roll_eval)
  from create_rolling_features_window[OF h1 h2 h3 h4 h5 h6 h7, of RMean] n
  show ?thesis by (auto simp: get_col_def nth_equalityI roll_eval)
qed

text \<open>
  Without the condition on names the claim fails: the rolling mean of \<open>a\<close> overwrites
  the input column \<open>a_rolling_mean_2d\<close> before that column is processed, so row 1 of
  its own rolling mean is missing, where the mean of the input column's rows 0 and 1 is 15.
\<close>

theorem create_rolling_features_window_counterexample:
  "get_col (create_rolling_features
      [(''a'', Column Numeric [Num 1, Num 3]),
       (''a_rolling_mean_2d'', Column Numeric [Num 10, Num 20])]
      [''a'', ''a_rolling_mean_2d''] [2]) ''a_rolling_mean_2d_rolling_mean_2d''
     = Some (Column Numeric [NA, NA])
   \<and> rolling 2 (stat_cell RMean) [Num 10, Num 20] = [NA, Num 15]"
  by (simp add: roll_eval)

section \<open>Cleaning of scraped data: sentiment scores\<close>

lemma shrinks_refl: "shrinks n T T"
  by (simp add: shrinks_def)

lemma shrinks_trans: "shrinks n T T1 \<Longrightarrow> shrinks n T1 T2 \<Longrightarrow> shrinks n T T2"
  unfolding shrinks_def by (metis subset_trans)

lemma set_keep_cells: "set (keep_cells f xs) \<subseteq> set xs"
  unfolding keep_cells_def by (auto dest: set_zip_leftD)

lemma keep_cells_sat: "x \<in> set (keep_cells (map P xs) xs) \<Longrightarrow> P x"
  unfolding keep_cells_def by (auto simp: zip_map2 zip_same_conv_map)

lemma map_of_map_cols: "map_of (map (\<lambda>(n, c). (n, g c)) T) m = map_option g (map_of T m)"
  by (induction T) auto

lemma map_of_keep_rows:
  "map_of (keep_rows f T) n = map_option (\<lambda>c. Column (dtype c) (keep_cells f (cells c))) (map_of T n)"
  unfolding keep_rows_def by (rule map_of_map_cols)

lemma shrinks_keep_rows: "shrinks n T (keep_rows f T)"
  by (auto simp: shrinks_def map_of_keep_rows dest: subsetD[OF set_keep_cells])

lemma shrinks_assign: "m \<noteq> n \<Longrightarrow> shrinks n T (assign m c T)"
  by (simp add: shrinks_def map_of_assign)

lemma set_sort_cells: "set (sort_cells k xs) \<subseteq> set xs"
  unfolding sort_cells_def Let_def by (auto dest: set_zip_rightD)

lemma map_of_sort_values:
  "sort_values name T = Inr T' \<Longrightarrow>
   \<exists>k. map_of T name = Some k \<and>
       map_of T' n = map_option (\<lambda>c. Column (dtype c) (sort_cells (cells k) (cells c))) (map_of T n)"
  unfolding sort_values_def
  by (auto split: option.splits simp: map_of_map_cols)

lemma shrinks_sort_values: "sort_values name T = Inr T' \<Longrightarrow> shrinks n T T'"
  using map_of_sort_values[of name T T' n]
  by (auto simp: shrinks_def dest: subsetD[OF set_sort_cells])

lemma shrinks_drop_blank: "drop_blank col T = Inr T' \<Longrightarrow> shrinks n T T'"
  unfolding drop_blank_def Let_def
  by (auto split: option.splits sum.splits intro: shrinks_refl shrinks_keep_rows
      shrinks_trans[OF shrinks_keep_rows shrinks_keep_rows])

lemma shrinks_parse_dates: "n \<noteq> ''date'' \<Longrightarrow> shrinks n T (parse_dates parse T)"
  unfolding parse_dates_def Let_def
  by (auto split: option.splits intro: shrinks_refl shrinks_trans[OF shrinks_assign shrinks_keep_rows])

lemma shrinks_lower_strip:
  "lower_strip cols T = Inr T' \<Longrightarrow> n \<notin> set cols \<Longrightarrow> \<forall>c\<in>set cols. n \<noteq> c @ ''_lower'' \<Longrightarrow>
   shrinks n T T'"
proof (induction cols arbitrary: T)
  case Nil
  then show ?case by (simp add: shrinks_refl)
next
  case (Cons col cols)
  show ?case
  proof (cases "map_of T col")
    case None
    with Cons show ?thesis by simp
  next
    case (Some c)
    with Cons.prems(1) obtain l s where
      rest: "lower_strip cols (assign col s (assign (col @ ''_lower'') l T)) = Inr T'"
      by (auto simp: Let_def split: sum.splits option.splits)
    have a: "shrinks n T (assign (col @ ''_lower'') l T)"
      using Cons.prems(3) by (intro shrinks_assign) auto
    have b: "shrinks n (assign (col @ ''_lower'') l T) (assign col s (assign (col @ ''_lower'') l T))"
      using Cons.prems(2) by (intro shrinks_assign) auto
    have c: "shrinks n (assign col s (assign (col @ ''_lower'') l T)) T'"
      using Cons.IH[OF rest] Cons.prems(2,3) by simp
    from a b c show ?thesis by (blast intro: shrinks_trans)
  qed
qed

lemma shrinks_sentiment_filter: "sentiment_filter T = Inr T' \<Longrightarrow> shrinks n T T'"
  unfolding sentiment_filter_def
  by (auto split: option.splits if_splits intro: shrinks_refl shrinks_keep_rows)

lemma sentiment_filter_in_unit:
  "sentiment_filter T = Inr T' \<Longrightarrow> map_of T' ''sentiment_polarity'' = Some c \<Longrightarrow>
   \<forall>x\<in>set (cells c). in_unit x"
proof (cases "map_of T ''sentiment_polarity''")
  case None
  assume "sentiment_filter T = Inr T'" and "map_of T' ''sentiment_polarity'' = Some c"
  with None show ?thesis by (simp add: sentiment_filter_def)
next
  case (Some c0)
  assume a: "sentiment_filter T = Inr T'" and b: "map_of T' ''sentiment_polarity'' = Some c"
  from a Some have "T' = keep_rows (map in_unit (cells c0)) T"
    by (simp add: sentiment_filter_def split: if_splits)
  with b Some have "cells c = keep_cells (map in_unit (cells c0)) (cells c0)"
    by (auto simp: map_of_keep_rows)
  then show ?thesis using keep_cells_sat[of _ in_unit "cells c0"] by simp
qed

lemma in_unit_iff: "in_unit x \<longleftrightarrow> (\<exists>v. x = Num v \<and> - 1 \<le> v \<and> v \<le> 1)"
  by (cases x) (simp_all add: in_unit_def)

lemma shrinks_dedup_scraped: "shrinks n T (dedup_scraped T)"
  unfolding dedup_scraped_def drop_duplicates_def by (auto intro: shrinks_refl shrinks_keep_rows)

lemma shrinks_date_parts:
  "date_parts T = Inr T' \<Longrightarrow> n \<notin> {''day_of_week'', ''month'', ''year''} \<Longrightarrow> shrinks n T T'"
  unfolding date_parts_def Let_def
  by (auto split: option.splits sum.splits simp: shrinks_def map_of_assign)

lemma shrinks_sort_by_date: "sort_by_date T = Inr T' \<Longrightarrow> shrinks n T T'"
  unfolding sort_by_date_def by (auto split: if_splits intro: shrinks_refl shrinks_sort_values)

lemma bind_Inr: "bind r f = Inr y \<longleftrightarrow> (\<exists>x. r = Inr x \<and> f x = Inr y)"
  by (cases r) (simp_all add: bind_def)

lemma shrinks_scraped_filtered:
  assumes "scraped_filtered parse df = Inr F"
  shows "shrinks ''sentiment_polarity'' df F"
proof -
  from assms obtain T1 T2 T3 where
    s1: "drop_blank ''text'' df = Inr T1" and s2: "drop_blank ''content'' T1 = Inr T2"
    and s3: "lower_strip [''text'', ''title'', ''content'', ''clean_text''] (parse_dates parse T2) = Inr T3"
    and s4: "sentiment_filter T3 = Inr F"
    unfolding scraped_filtered_def bind_Inr by blast
  have "shrinks ''sentiment_polarity'' (parse_dates parse T2) T3"
    by (rule shrinks_lower_strip[OF s3]) simp_all
  moreover have "shrinks ''sentiment_polarity'' T2 (parse_dates parse T2)"
    by (rule shrinks_parse_dates) simp
  ultimately show ?thesis
    using shrinks_drop_blank[OF s1] shrinks_drop_blank[OF s2] shrinks_sentiment_filter[OF s4]
    by (blast intro: shrinks_trans)
qed

lemma shrinks_after_filtered:
  assumes "bind (date_parts (dedup_scraped F)) sort_by_date = Inr out"
  shows "shrinks ''sentiment_polarity'' F out"
proof -
  from assms obtain T5 where s5: "date_parts (dedup_scraped F) = Inr T5"
    and s6: "sort_by_date T5 = Inr out"
    unfolding bind_Inr by blast
  have "shrinks ''sentiment_polarity'' (dedup_scraped F) T5"
    by (rule shrinks_date_parts[OF s5]) simp
  then show ?thesis using shrinks_dedup_scraped shrinks_sort_by_date[OF s6]
    by (blast intro: shrinks_trans)
qed

text \<open>
  Claim C7, as amended. When the input of \<open>clean_scraped_data\<close> has a column
  \<open>sentiment_polarity\<close> and a table is returned, that table has the column, every
  score in it is a number in \<open>[-1, 1]\<close>, and every score in it is a score of the
  input: a row whose score is out of range or missing is removed, no score is changed.
\<close>

theorem clean_scraped_data_sentiment:
  assumes "clean_scraped_data parse df source = Inr out"
    and "map_of df ''sentiment_polarity'' = Some c0"
  shows "\<exists>c. map_of out ''sentiment_polarity'' = Some c \<and>
           (\<forall>x\<in>set (cells c). \<exists>v. x = Num v \<and> - 1 \<le> v \<and> v \<le> 1) \<and>
           set (cells c) \<subseteq> set (cells c0)"
proof -
  from assms(1) obtain F where f: "scraped_filtered parse df = Inr F"
    and r: "bind (date_parts (dedup_scraped F)) sort_by_date = Inr out"
    unfolding clean_scraped_data_def bind_Inr by blast
  from f obtain T3 where s4: "sentiment_filter T3 = Inr F"
    unfolding scraped_filtered_def bind_Inr by blast
  from shrinks_scraped_filtered[OF f] assms(2) obtain c1 where
    c1: "map_of F ''sentiment_polarity'' = Some c1" and sub1: "set (cells c1) \<subseteq> set (cells c0)"
    unfolding shrinks_def by blast
  from shrinks_after_filtered[OF r] c1 obtain c where
    c: "map_of out ''sentiment_polarity'' = Some c" and sub2: "set (cells c) \<subseteq> set (cells c1)"
    unfolding shrinks_def by blast
  have "\<forall>x\<in>set (cells c1). in_unit x" using sentiment_filter_in_unit[OF s4 c1] .
  with sub2 have "\<forall>x\<in>set (cells c). in_unit x" by blast
  then have "\<forall>x\<in>set (cells c). \<exists>v. x = Num v \<and> - 1 \<le> v \<and> v \<le> 1"
    by (simp add: in_unit_iff)
  with c sub1 sub2 show ?thesis by blast
qed

lemmas scraped_eval = clean_scraped_data_def scraped_filtered_def bind_def drop_blank_def
  parse_dates_def sentiment_filter_def dedup_scraped_def duplicate_cols_def date_parts_def
  sort_by_date_def columns_def keep_rows_def keep_cells_def in_unit_def drop_duplicates_def
  sel_cols_def nrows_def notna_def str_map_def sort_values_def sort_cells_def dt_field_def

theorem clean_scraped_data_sentiment_witness:
  "clean_scraped_data (\<lambda>s. None)
     [(''sentiment_polarity'', Column Numeric [Num 2, Num (1/2), NA, Num (- 1)])] ''reddit''
   = Inr [(''sentiment_polarity'', Column Numeric [Num (1/2), Num (- 1)])]"
proof -
  let ?df = "[(''sentiment_polarity'', Column Numeric [Num 2, Num (1/2), NA, Num (- 1)])]"
  let ?out = "[(''sentiment_polarity'', Column Numeric [Num (1/2), Num (- 1)])]"
  have h1: "clean_scraped_data (\<lambda>s. None) ?df ''reddit'' = Inr ?out"
    by (simp add: scraped_eval)
  have h2: "map_of ?df ''sentiment_polarity'' = Some (Column Numeric [Num 2, Num (1/2), NA, Num (- 1)])"
    by simp
  from clean_scraped_data_sentiment[OF h1 h2] h1 show ?thesis by simp
qed

text \<open>
  The claim that an out-of-range score is brought into the interval fails: the row with
  score 2 is removed, and the table returned has no row.
\<close>

theorem clean_scraped_data_sentiment_counterexample:
  "clean_scraped_data (\<lambda>s. None) [(''sentiment_polarity'', Column Numeric [Num 2])] ''reddit''
   = Inr [(''sentiment_polarity'', Column Numeric [])]"
  by (simp add: scraped_eval)

section \<open>Row counts\<close>

lemma wf_lookup: "wf T \<Longrightarrow> map_of T n = Some c \<Longrightarrow> length (cells c) = nrows T"
  unfolding wf_def by (auto dest: map_of_SomeD)

lemma length_filter_zip: "length (filter snd (zip xs f)) = length (filter (\<lambda>b. b) (take (length xs) f))"
proof (induction xs arbitrary: f)
  case Nil
  then show ?case by simp
next
  case (Cons x xs)
  then show ?case by (cases f) simp_all
qed

lemma length_keep_cells: "length (keep_cells f xs) = length (filter (\<lambda>b. b) (take (length xs) f))"
  by (simp add: keep_cells_def length_filter_zip)

lemma columns_keep_rows: "columns (keep_rows f T) = columns T"
  by (simp add: columns_def keep_rows_def case_prod_unfold comp_def)

lemma nrows_keep_rows: "T \<noteq> [] \<Longrightarrow> nrows (keep_rows f T) = length (filter (\<lambda>b. b) (take (nrows T) f))"
  by (cases T) (auto simp: nrows_def keep_rows_def length_keep_cells)

lemma wf_keep_rows: "wf T \<Longrightarrow> wf (keep_rows f T)"
proof (cases T)
  case Nil
  then show ?thesis by (simp add: wf_def keep_rows_def)
next
  case (Cons a list)
  assume w: "wf T"
  have "T \<noteq> []" using Cons by simp
  from nrows_keep_rows[OF this] have n: "nrows (keep_rows f T) = length (filter (\<lambda>b. b) (take (nrows T) f))" .
  show ?thesis unfolding wf_def
  proof (clarify)
    fix m c assume "(m, c) \<in> set (keep_rows f T)"
    then obtain c0 where c0: "(m, c0) \<in> set T" and c: "c = Column (dtype c0) (keep_cells f (cells c0))"
      by (auto simp: keep_rows_def)
    from w c0 have "length (cells c0) = nrows T" by (auto simp: wf_def)
    with c n show "length (cells c) = nrows (keep_rows f T)" by (simp add: length_keep_cells)
  qed
qed

lemma nrows_assign: "wf T \<Longrightarrow> length (cells c) = nrows T \<Longrightarrow> nrows (assign n c T) = nrows T"
  by (cases T) (auto simp: nrows_def)

lemma set_assign: "set (assign n c T) \<subseteq> insert (n, c) (set T)"
  by (induction T) (auto split: if_splits)

lemma wf_assign:
  assumes "wf T" and "length (cells c) = nrows T"
  shows "wf (assign n c T)"
  unfolding wf_def
proof clarify
  fix m d assume "(m, d) \<in> set (assign n c T)"
  with set_assign[of n c T] have "(m, d) = (n, c) \<or> (m, d) \<in> set T" by blast
  then have "length (cells d) = nrows T" using assms by (auto simp: wf_def)
  then show "length (cells d) = nrows (assign n c T)" using nrows_assign[OF assms] by simp
qed

lemma length_sort_cells: "length (sort_cells k xs) = min (length k) (length xs)"
proof -
  have "length (filter (\<lambda>p. fst p \<noteq> NA) (zip k xs)) + length (filter (\<lambda>p. fst p = NA) (zip k xs))
      = length (zip k xs)"
    using sum_length_filter_compl[of "\<lambda>p. fst p \<noteq> NA" "zip k xs"] by simp
  then show ?thesis by (simp add: sort_cells_def Let_def)
qed

lemma sort_values_rows:
  assumes "wf T" and "sort_values name T = Inr T'"
  shows "wf T' \<and> nrows T' = nrows T"
proof -
  from assms(2) obtain k where k: "map_of T name = Some k"
    and T': "T' = map (\<lambda>(n, c). (n, Column (dtype c) (sort_cells (cells k) (cells c)))) T"
    by (auto simp: sort_values_def split: option.splits)
  have lk: "length (cells k) = nrows T" using wf_lookup[OF assms(1) k] .
  have n: "nrows T' = nrows T"
  proof (cases T)
    case Nil
    then show ?thesis using T' by (simp add: nrows_def)
  next
    case (Cons a list)
    then have "length (cells (snd a)) = nrows T" by (simp add: nrows_def case_prod_unfold)
    then show ?thesis using T' Cons lk by (simp add: nrows_def case_prod_unfold length_sort_cells)
  qed
  have "wf T'" unfolding wf_def
  proof clarify
    fix m c assume "(m, c) \<in> set T'"
    then obtain c0 where c0: "(m, c0) \<in> set T" and c: "c = Column (dtype c0) (sort_cells (cells k) (cells c0))"
      using T' by auto
    from assms(1) c0 have "length (cells c0) = nrows T" by (auto simp: wf_def)
    with c lk n show "length (cells c) = nrows T'" by (simp add: length_sort_cells)
  qed
  with n show ?thesis by simp
qed

lemma length_first_mask: "length (first_mask seen ks) = length ks"
  by (induction ks arbitrary: seen) auto

lemma count_first_mask: "length (filter (\<lambda>b. b) (first_mask seen ks)) = card (set ks - set seen)"
proof (induction ks arbitrary: seen)
  case Nil
  then show ?case by simp
next
  case (Cons k ks)
  define A where "A = set ks - set (k # seen)"
  have ih: "length (filter (\<lambda>b. b) (first_mask (k # seen) ks)) = card A"
    unfolding A_def by (rule Cons.IH)
  have fin: "finite A" unfolding A_def by simp
  have notin: "k \<notin> A" unfolding A_def by simp
  show ?case
  proof (cases "k \<in> set seen")
    case True
    then have "set (k # ks) - set seen = A" unfolding A_def by auto
    with True ih show ?thesis by simp
  next
    case False
    then have "set (k # ks) - set seen = insert k A" unfolding A_def by auto
    moreover have "card (insert k A) = Suc (card A)"
      using fin notin by (rule card_insert_disjoint)
    ultimately have "card (set (k # ks) - set seen) = Suc (card A)"
      by (simp only:)
    with False ih show ?thesis by simp
  qed
qed

lemma length_row_keys: "\<forall>c\<in>set cs. length c = n \<Longrightarrow> length (row_keys n cs) = n"
  by (induction cs) auto

lemma sel_cols_lengths: "wf T \<Longrightarrow> \<forall>c\<in>set (sel_cols T names). length c = nrows T"
  by (auto simp: sel_cols_def wf_lookup split: option.splits)

lemma nrows_drop_duplicates:
  assumes "wf T" and "T \<noteq> []"
  shows "nrows (drop_duplicates by T) = card (set (row_keys (nrows T) (sel_cols T by)))"
proof -
  let ?ks = "row_keys (nrows T) (sel_cols T by)"
  have "length ?ks = nrows T" using length_row_keys[OF sel_cols_lengths[OF assms(1)]] .
  then have "take (nrows T) (first_mask [] ?ks) = first_mask [] ?ks"
    by (simp add: length_first_mask)
  then show ?thesis
    using nrows_keep_rows[OF assms(2), of "first_mask [] ?ks"] count_first_mask[of "[]" ?ks]
    by (simp add: drop_duplicates_def)
qed

section \<open>Cleaning of scraped data: duplicates\<close>

lemma same_dom_iff: "same_dom n T T' \<longleftrightarrow> (map_of T' n = None) = (map_of T n = None)"
  by (auto simp: same_dom_def in_columns_iff)

lemma same_dom_refl: "same_dom n T T"
  by (simp add: same_dom_def)

lemma same_dom_trans: "same_dom n T T1 \<Longrightarrow> same_dom n T1 T2 \<Longrightarrow> same_dom n T T2"
  by (simp add: same_dom_def)

lemma same_dom_keep_rows: "same_dom n T (keep_rows f T)"
  by (simp add: same_dom_def columns_keep_rows)

lemma same_dom_assign: "m \<noteq> n \<or> map_of T m \<noteq> None \<Longrightarrow> same_dom n T (assign m c T)"
  by (auto simp: same_dom_iff map_of_assign)

lemma length_str_map: "str_map f c = Inr s \<Longrightarrow> length (cells s) = length (cells c)"
  by (auto simp: str_map_def split: if_splits)

lemma length_dt_field: "dt_field f c = Inr w \<Longrightarrow> length (cells w) = length (cells c)"
  by (auto simp: dt_field_def split: if_splits)

lemma assign_rows:
  assumes "wf T" and "map_of T n = Some c" and "length (cells w) = length (cells c)"
  shows "wf (assign m w T) \<and> nrows (assign m w T) = nrows T"
proof -
  have "length (cells w) = nrows T" using wf_lookup[OF assms(1,2)] assms(3) by simp
  then show ?thesis using wf_assign[OF assms(1)] nrows_assign[OF assms(1)] by simp
qed

lemma drop_blank_props:
  assumes "drop_blank col T = Inr T'"
  shows "(wf T \<longrightarrow> wf T') \<and> same_dom n T T'"
proof (cases "map_of T col")
  case None
  with assms show ?thesis by (simp add: drop_blank_def same_dom_refl)
next
  case (Some c)
  with assms obtain f where "T' = keep_rows f (keep_rows (notna c) T)"
    by (auto simp: drop_blank_def Let_def split: option.splits sum.splits)
  then show ?thesis
    using wf_keep_rows same_dom_trans[OF same_dom_keep_rows same_dom_keep_rows] by simp
qed

lemma parse_dates_props: "(wf T \<longrightarrow> wf (parse_dates parse T)) \<and> same_dom n T (parse_dates parse T)"
proof (cases "map_of T ''date''")
  case None
  then show ?thesis by (simp add: parse_dates_def same_dom_refl)
next
  case (Some c)
  let ?d = "Column Datetime (map (to_datetime parse) (cells c))"
  have eq: "parse_dates parse T = keep_rows (notna ?d) (assign ''date'' ?d T)"
    using Some by (simp add: parse_dates_def Let_def)
  have "wf T \<longrightarrow> wf (assign ''date'' ?d T)"
    using assign_rows[of T "''date''" c ?d "''date''"] Some by simp
  moreover have "same_dom n T (assign ''date'' ?d T)"
    using Some by (intro same_dom_assign) simp
  ultimately show ?thesis
    unfolding eq using wf_keep_rows same_dom_trans[OF _ same_dom_keep_rows] by blast
qed

lemma lower_strip_props:
  "lower_strip cols T = Inr T' \<Longrightarrow> \<forall>c\<in>set cols. n \<noteq> c @ ''_lower'' \<Longrightarrow>
   (wf T \<longrightarrow> wf T') \<and> same_dom n T T'"
proof (induction cols arbitrary: T)
  case Nil
  then show ?case by (simp add: same_dom_refl)
next
  case (Cons col cols)
  show ?case
  proof (cases "map_of T col")
    case None
    with Cons show ?thesis by simp
  next
    case (Some c)
    with Cons.prems(1) obtain l c1 s where
      l: "str_map lower c = Inr l"
      and c1: "map_of (assign (col @ ''_lower'') l T) col = Some c1"
      and s: "str_map strip c1 = Inr s"
      and rest: "lower_strip cols (assign col s (assign (col @ ''_lower'') l T)) = Inr T'"
      by (auto simp: Let_def split: sum.splits option.splits)
    let ?T1 = "assign (col @ ''_lower'') l T"
    let ?T2 = "assign col s ?T1"
    have w1: "wf T \<longrightarrow> wf ?T1"
      using assign_rows[OF _ Some length_str_map[OF l]] by simp
    have w2: "wf ?T1 \<longrightarrow> wf ?T2"
      using assign_rows[OF _ c1 length_str_map[OF s]] by simp
    have d1: "same_dom n T ?T1" using Cons.prems(2) by (intro same_dom_assign) auto
    have d2: "same_dom n ?T1 ?T2" using c1 by (intro same_dom_assign) simp
    have "(wf ?T2 \<longrightarrow> wf T') \<and> same_dom n ?T2 T'"
      using Cons.IH[OF rest] Cons.prems(2) by simp
    with w1 w2 d1 d2 show ?thesis by (blast intro: same_dom_trans)
  qed
qed

lemma sentiment_filter_props:
  "sentiment_filter T = Inr T' \<Longrightarrow> (wf T \<longrightarrow> wf T') \<and> same_dom n T T'"
  unfolding sentiment_filter_def
  by (auto split: option.splits if_splits intro: same_dom_refl same_dom_keep_rows wf_keep_rows)

lemma scraped_filtered_props:
  assumes "scraped_filtered parse df = Inr F" and "n \<in> {''date'', ''title'', ''text''}"
  shows "(wf df \<longrightarrow> wf F) \<and> same_dom n df F"
proof -
  from assms(1) obtain T1 T2 T3 where
    s1: "drop_blank ''text'' df = Inr T1" and s2: "drop_blank ''content'' T1 = Inr T2"
    and s3: "lower_strip [''text'', ''title'', ''content'', ''clean_text''] (parse_dates parse T2) = Inr T3"
    and s4: "sentiment_filter T3 = Inr F"
    unfolding scraped_filtered_def bind_Inr by blast
  have "\<forall>c\<in>set [''text'', ''title'', ''content'', ''clean_text'']. n \<noteq> c @ ''_lower''"
    using assms(2) by auto
  from lower_strip_props[OF s3 this]
  have p3: "(wf (parse_dates parse T2) \<longrightarrow> wf T3) \<and> same_dom n (parse_dates parse T2) T3" .
  show ?thesis
    using drop_blank_props[OF s1, of n] drop_blank_props[OF s2, of n]
      parse_dates_props[of T2 parse n] p3 sentiment_filter_props[OF s4, of n]
    by (blast intro: same_dom_trans)
qed

lemma duplicate_cols_cong:
  assumes "same_dom ''date'' T T'" and "same_dom ''title'' T T'" and "same_dom ''text'' T T'"
  shows "duplicate_cols T' = duplicate_cols T"
  using assms by (simp add: duplicate_cols_def same_dom_def)

lemma duplicate_cols_nonempty: "duplicate_cols T \<noteq> [] \<Longrightarrow> T \<noteq> []"
  by (auto simp: duplicate_cols_def columns_def)

lemma dedup_scraped_rows:
  assumes "wf T"
  shows "wf (dedup_scraped T) \<and>
         nrows (dedup_scraped T) =
           (if duplicate_cols T = [] then nrows T
            else card (set (row_keys (nrows T) (sel_cols T (duplicate_cols T)))))"
proof (cases "duplicate_cols T = []")
  case True
  with assms show ?thesis by (simp add: dedup_scraped_def)
next
  case False
  then have "T \<noteq> []" by (rule duplicate_cols_nonempty)
  from nrows_drop_duplicates[OF assms this] False show ?thesis
    using wf_keep_rows[OF assms] by (simp add: dedup_scraped_def drop_duplicates_def)
qed

lemma date_parts_rows:
  assumes "wf T" and "date_parts T = Inr T'"
  shows "wf T' \<and> nrows T' = nrows T"
proof (cases "map_of T ''date''")
  case None
  with assms show ?thesis by (simp add: date_parts_def)
next
  case (Some c)
  with assms(2) obtain w c1 m c2 y where
    w: "dt_field dayofweek c = Inr w"
    and c1: "map_of (assign ''day_of_week'' w T) ''date'' = Some c1"
    and m: "dt_field (\<lambda>d. snd (civil d)) c1 = Inr m"
    and c2: "map_of (assign ''month'' m (assign ''day_of_week'' w T)) ''date'' = Some c2"
    and y: "dt_field (\<lambda>d. fst (civil d)) c2 = Inr y"
    and T': "T' = assign ''year'' y (assign ''month'' m (assign ''day_of_week'' w T))"
    by (auto simp: date_parts_def Let_def split: sum.splits option.splits)
  from assign_rows[OF assms(1) Some length_dt_field[OF w]]
  have a1: "wf (assign ''day_of_week'' w T)" "nrows (assign ''day_of_week'' w T) = nrows T"
    by simp_all
  from assign_rows[OF a1(1) c1 length_dt_field[OF m]]
  have a2: "wf (assign ''month'' m (assign ''day_of_week'' w T))"
    "nrows (assign ''month'' m (assign ''day_of_week'' w T)) = nrows (assign ''day_of_week'' w T)"
    by simp_all
  from assign_rows[OF a2(1) c2 length_dt_field[OF y]] a1(2) a2(2) T' show ?thesis by simp
qed

lemma sort_by_date_rows:
  assumes "wf T" and "sort_by_date T = Inr T'"
  shows "nrows T' = nrows T"
  using assms sort_values_rows[OF assms(1)] by (auto simp: sort_by_date_def split: if_splits)

section \<open>Cleaning of scraped data: examples\<close>

lemma civil_1: "civil 1 = (1970, 1)"
  by code_simp

lemma civil_2: "civil 2 = (1970, 1)"
  by code_simp

lemmas scraped_eval2 = clean_scraped_data_def scraped_filtered_def bind_def drop_blank_def
  parse_dates_def sentiment_filter_def dedup_scraped_def duplicate_cols_def date_parts_def
  sort_by_date_def columns_def keep_rows_def keep_cells_def in_unit_def drop_duplicates_def
  sel_cols_def nrows_def notna_def str_map_def sort_values_def sort_cells_def dt_field_def
  Let_def strip_def lower_def lower_char_def is_space_def dayofweek_def civil_1 civil_2

section \<open>Validation: ratios\<close>

lemma numeric_cols_present: "col \<in> set (numeric_cols T) \<Longrightarrow> map_of T col \<noteq> None"
  by (auto simp: numeric_cols_def map_of_eq_None_iff intro: rev_image_eqI)

lemma ranges_loop_ok:
  assumes pos: "0 < nrows df"
  shows "\<forall>col\<in>set cols. map_of df col \<noteq> None \<Longrightarrow>
         \<forall>(n, e)\<in>set (outliers rep). out_ratio e = real (out_count e) / real (nrows df) \<Longrightarrow>
         \<exists>rep'. ranges_loop df expected cols rep = Inr rep' \<and>
           (\<forall>(n, e)\<in>set (outliers rep'). out_ratio e = real (out_count e) / real (nrows df))"
proof (induction cols arbitrary: rep)
  case Nil
  then show ?case by simp
next
  case (Cons col cols)
  from Cons.prems(1) obtain c where c: "map_of df col = Some c" by auto
  obtain lo hi where b: "iqr_bounds c = (lo, hi)" by (cases "iqr_bounds c")
  let ?n = "length (filter (outside lo hi) (cells c))"
  let ?rep = "\<lparr>outliers = outliers rep @
      [(col, \<lparr>out_count = ?n, out_ratio = real ?n / real (nrows df), lower_bound = lo, upper_bound = hi\<rparr>)],
    range_violations =
      (case map_of expected col of
         None \<Rightarrow> range_violations rep
       | Some (exp_min, exp_max) \<Rightarrow>
           range_violations rep @
             [(col, length (filter (outside (Some exp_min) (Some exp_max)) (cells c)))]),
    statistics = statistics rep @ [(col, col_stats c)]\<rparr>"
  have d: "py_div ?n (nrows df) = Inr (real ?n / real (nrows df))"
    using pos by (simp add: py_div_def)
  have step: "ranges_loop df expected (col # cols) rep = ranges_loop df expected cols ?rep"
    using c b d by (simp add: Let_def)
  have inv: "\<forall>(n, e)\<in>set (outliers ?rep). out_ratio e = real (out_count e) / real (nrows df)"
    using Cons.prems(2) by auto
  have "\<forall>col\<in>set cols. map_of df col \<noteq> None" using Cons.prems(1) by simp
  from Cons.IH[OF this inv] step show ?case by simp
qed

lemma ranges_loop_zero:
  assumes "nrows df = 0" and "map_of df col \<noteq> None"
  shows "ranges_loop df expected (col # cols) rep = Inl ZeroDivisionError"
proof -
  from assms(2) obtain c where c: "map_of df col = Some c" by auto
  obtain lo hi where b: "iqr_bounds c = (lo, hi)" by (cases "iqr_bounds c")
  show ?thesis using c b assms(1) by (simp add: py_div_def Let_def)
qed

lemma check_duplicates_ratio:
  "check_duplicates df sub = Inr r \<Longrightarrow> duplicate_ratio r = np_div (duplicate_count r) (nrows df)"
  by (auto simp: check_duplicates_def Let_def split: if_splits)

text \<open>
  Claim C9. Both ratios divide by the number of rows without a guard. For a table with at
  least one row, the duplicate ratio is the duplicate count over the row count, and
  \<open>check_numeric_ranges\<close> returns a report in which every outlier ratio is the outlier
  count over the row count. For a table without rows the duplicate ratio is not a number
  (the division of the library's integers yields NaN), and \<open>check_numeric_ranges\<close>
  raises ZeroDivisionError as soon as the table has a numeric column.
\<close>

theorem validator_ratio_defined:
  "(0 < nrows df \<longrightarrow>
      (\<forall>r. check_duplicates df sub = Inr r \<longrightarrow>
           duplicate_ratio r = Some (real (duplicate_count r) / real (nrows df))) \<and>
      (\<exists>rep. check_numeric_ranges df expected = Inr rep \<and>
           (\<forall>(n, e)\<in>set (outliers rep). out_ratio e = real (out_count e) / real (nrows df)))) \<and>
   (nrows df = 0 \<longrightarrow>
      (\<forall>r. check_duplicates df sub = Inr r \<longrightarrow> duplicate_ratio r = None) \<and>
      (numeric_cols df \<noteq> [] \<longrightarrow> check_numeric_ranges df expected = Inl ZeroDivisionError))"
proof (intro conjI impI allI)
  fix r assume "0 < nrows df" and "check_duplicates df sub = Inr r"
  then show "duplicate_ratio r = Some (real (duplicate_count r) / real (nrows df))"
    using check_duplicates_ratio[of df sub r] by (simp add: np_div_def)
next
  assume pos: "0 < nrows df"
  have "\<forall>col\<in>set (numeric_cols df). map_of df col \<noteq> None"
    using numeric_cols_present by blast
  from ranges_loop_ok[OF pos this, of "\<lparr>outliers = [], range_violations = [], statistics = []\<rparr>" expected]
  show "\<exists>rep. check_numeric_ranges df expected = Inr rep \<and>
           (\<forall>(n, e)\<in>set (outliers rep). out_ratio e = real (out_count e) / real (nrows df))"
    by (simp add: check_numeric_ranges_def)
next
  fix r assume "nrows df = 0" and "check_duplicates df sub = Inr r"
  then show "duplicate_ratio r = None"
    using check_duplicates_ratio[of df sub r] by (simp add: np_div_def)
next
  assume z: "nrows df = 0" and ne: "numeric_cols df \<noteq> []"
  then obtain col cols where cs: "numeric_cols df = col # cols" by (cases "numeric_cols df") auto
  then have "map_of df col \<noteq> None" using numeric_cols_present[of col df] by simp
  from ranges_loop_zero[OF z this] cs
  show "check_numeric_ranges df expected = Inl ZeroDivisionError"
    by (simp add: check_numeric_ranges_def)
qed

lemmas validator_eval = check_duplicates_def check_numeric_ranges_def numeric_cols_def
  duplicated_def np_div_def py_div_def nrows_def columns_def sel_cols_def Let_def

theorem validator_ratio_defined_witness:
  "check_duplicates [(''x'', Column Numeric [Num 1, Num 1, Num 2])] None
     = Inr \<lparr>duplicate_count = 1, duplicate_ratio = Some (1 / 3), checked_columns = None\<rparr> \<and>
   check_duplicates [(''x'', Column Numeric [])] None
     = Inr \<lparr>duplicate_count = 0, duplicate_ratio = None, checked_columns = None\<rparr> \<and>
   check_numeric_ranges [(''x'', Column Numeric [])] [] = Inl ZeroDivisionError"
proof -
  let ?a = "[(''x'', Column Numeric [Num 1, Num 1, Num 2])]"
  let ?b = "[(''x'', Column Numeric [])]"
  have pa: "0 < nrows ?a" by (simp add: nrows_def)
  have zb: "nrows ?b = 0" by (simp add: nrows_def)
  have nb: "numeric_cols ?b \<noteq> []" by (simp add: numeric_cols_def)
  have ca: "check_duplicates ?a None
      = Inr \<lparr>duplicate_count = 1, duplicate_ratio = Some (1 / 3), checked_columns = None\<rparr>"
    by (simp add: validator_eval)
  have cb: "check_duplicates ?b None
      = Inr \<lparr>duplicate_count = 0, duplicate_ratio = None, checked_columns = None\<rparr>"
    by (simp add: validator_eval)
  from validator_ratio_defined[of ?a None "[]"] validator_ratio_defined[of ?b None "[]"]
    pa zb nb ca cb
  show ?thesis by auto
qed

section \<open>Loops over columns\<close>

lemma assign_same: "map_of T n = Some c \<Longrightarrow> assign n c T = T"
  by (induction T) (auto split: if_splits)

lemma columns_assign_present: "n \<in> set (columns T) \<Longrightarrow> columns (assign n c T) = columns T"
  by (induction T) (force simp: columns_def)+

lemma for_cols_columns: "for_cols cols g T = Inr T' \<Longrightarrow> columns T' = columns T"
proof (induction cols arbitrary: T)
  case Nil
  then show ?case by simp
next
  case (Cons col cols)
  from Cons.prems obtain c c' where c: "map_of T col = Some c" and g: "g c = Inr c'"
    and rest: "for_cols cols g (assign col c' T) = Inr T'"
    by (auto split: option.splits sum.splits)
  have "col \<in> set (columns T)" using c by (simp add: in_columns_iff)
  with Cons.IH[OF rest] show ?case by (simp add: columns_assign_present)
qed

lemma for_cols_other: "for_cols cols g T = Inr T' \<Longrightarrow> n \<notin> set cols \<Longrightarrow> map_of T' n = map_of T n"
proof (induction cols arbitrary: T)
  case Nil
  then show ?case by simp
next
  case (Cons col cols)
  from Cons.prems(1) obtain c c' where rest: "for_cols cols g (assign col c' T) = Inr T'"
    by (auto split: option.splits sum.splits)
  from Cons.IH[OF rest] Cons.prems(2) show ?case by (simp add: map_of_assign)
qed

lemma for_cols_touched:
  "for_cols cols g T = Inr T' \<Longrightarrow> distinct cols \<Longrightarrow> n \<in> set cols \<Longrightarrow>
   \<exists>c c'. map_of T n = Some c \<and> g c = Inr c' \<and> map_of T' n = Some c'"
proof (induction cols arbitrary: T)
  case Nil
  then show ?case by simp
next
  case (Cons col cols)
  from Cons.prems(1) obtain c c' where c: "map_of T col = Some c" and g: "g c = Inr c'"
    and rest: "for_cols cols g (assign col c' T) = Inr T'"
    by (auto split: option.splits sum.splits)
  show ?case
  proof (cases "n = col")
    case True
    then have "n \<notin> set cols" using Cons.prems(2) by simp
    from for_cols_other[OF rest this] True c g show ?thesis by (simp add: map_of_assign)
  next
    case False
    then have "n \<in> set cols" using Cons.prems(3) by simp
    from Cons.IH[OF rest _ this] Cons.prems(2) False show ?thesis by (simp add: map_of_assign)
  qed
qed

lemma for_cols_fixed:
  "\<forall>col\<in>set cols. \<exists>c. map_of T col = Some c \<and> g c = Inr c \<Longrightarrow> for_cols cols g T = Inr T"
  by (induction cols) (auto simp: assign_same)

lemma for_cols_total:
  "\<forall>col\<in>set cols. map_of T col \<noteq> None \<Longrightarrow> \<exists>T'. for_cols cols (\<lambda>c. Inr (h c)) T = Inr T'"
proof (induction cols arbitrary: T)
  case Nil
  then show ?case by simp
next
  case (Cons col cols)
  then obtain c where c: "map_of T col = Some c" by auto
  have "\<forall>x\<in>set cols. map_of (assign col (h c) T) x \<noteq> None"
    using Cons.prems by (simp add: map_of_assign)
  from Cons.IH[OF this] c show ?case by simp
qed

lemma table_ext:
  "distinct (columns T) \<Longrightarrow> columns T' = columns T \<Longrightarrow>
   \<forall>n\<in>set (columns T). map_of T' n = map_of T n \<Longrightarrow> T' = T"
proof (induction T arbitrary: T')
  case Nil
  then show ?case by (simp add: columns_def)
next
  case (Cons a T)
  obtain n c where a: "a = (n, c)" by (cases a)
  from Cons.prems(2) obtain b U where T': "T' = b # U" by (cases T') (auto simp: columns_def)
  obtain m d where b: "b = (m, d)" by (cases b)
  from Cons.prems(2) a T' b have mn: "m = n" and cu: "columns U = columns T"
    by (simp_all add: columns_def)
  from Cons.prems(3) a T' b mn have dc: "d = c" by (auto simp: columns_def)
  have nn: "n \<notin> set (columns T)" and dT: "distinct (columns T)"
    using Cons.prems(1) a by (simp_all add: columns_def)
  have "\<forall>x\<in>set (columns T). map_of U x = map_of T x"
  proof
    fix x assume x: "x \<in> set (columns T)"
    then have "x \<noteq> n" using nn by auto
    moreover have "x \<in> set (columns (a # T))" using x by (simp add: columns_def)
    then have "map_of T' x = map_of (a # T) x" using Cons.prems(3) by blast
    ultimately show "map_of U x = map_of T x" using a T' b mn by simp
  qed
  from Cons.IH[OF dT cu this] a T' b mn dc show ?case by simp
qed

lemma numeric_cols_sub: "set (numeric_cols T) \<subseteq> set (columns T)"
  by (auto simp: numeric_cols_def columns_def)

lemma distinct_numeric_cols: "distinct (columns T) \<Longrightarrow> distinct (numeric_cols T)"
  unfolding numeric_cols_def columns_def by (rule distinct_map_filter)

lemma distinct_categorical_cols: "distinct (columns T) \<Longrightarrow> distinct (categorical_cols T)"
  unfolding categorical_cols_def columns_def by (rule distinct_map_filter)

lemma map_of_distinct_in: "distinct (columns T) \<Longrightarrow> (n, c) \<in> set T \<Longrightarrow> map_of T n = Some c"
  unfolding columns_def by (rule map_of_is_SomeI)

lemma numeric_cols_iff:
  "distinct (columns T) \<Longrightarrow> n \<in> set (numeric_cols T) \<longleftrightarrow> (\<exists>c. map_of T n = Some c \<and> dtype c = Numeric)"
  by (auto simp: numeric_cols_def dest: map_of_SomeD map_of_distinct_in intro: rev_image_eqI)

lemma categorical_cols_iff:
  "distinct (columns T) \<Longrightarrow>
   n \<in> set (categorical_cols T) \<longleftrightarrow>
     (\<exists>c. map_of T n = Some c \<and> (dtype c = Object \<or> is_category (dtype c)))"
  by (auto simp: categorical_cols_def dest: map_of_SomeD map_of_distinct_in intro: rev_image_eqI)

section \<open>Duplicate removal is idempotent\<close>

lemma keep_cells_Nil [simp]: "keep_cells m [] = []" "keep_cells [] xs = []"
  by (simp_all add: keep_cells_def)

lemma keep_cells_Cons [simp]:
  "keep_cells (b # m) (x # xs) = (if b then x # keep_cells m xs else keep_cells m xs)"
  by (simp add: keep_cells_def)

lemma keep_cells_map_zip:
  "length xs = length ys \<Longrightarrow>
   keep_cells m (map g (zip xs ys)) = map g (zip (keep_cells m xs) (keep_cells m ys))"
proof (induction m arbitrary: xs ys)
  case Nil
  then show ?case by simp
next
  case (Cons b m)
  show ?case
  proof (cases xs)
    case Nil
    then show ?thesis using Cons.prems by simp
  next
    case (Cons x xs')
    then obtain y ys' where ys: "ys = y # ys'" using Cons.prems by (cases ys) auto
    have "length xs' = length ys'" using Cons.prems Cons ys by simp
    from Cons.IH[OF this] Cons ys show ?thesis by simp
  qed
qed

lemma keep_cells_replicate:
  "length m = n \<Longrightarrow> keep_cells m (replicate n x) = replicate (length (filter (\<lambda>b. b) m)) x"
proof (induction m arbitrary: n)
  case Nil
  then show ?case by simp
next
  case (Cons b m)
  then obtain k where "n = Suc k" "length m = k" by (cases n) auto
  with Cons.IH[of k] show ?case by simp
qed

lemma keep_cells_all: "length xs \<le> j \<Longrightarrow> keep_cells (replicate j True) xs = xs"
proof (induction xs arbitrary: j)
  case Nil
  then show ?case by simp
next
  case (Cons x xs)
  then obtain k where "j = Suc k" "length xs \<le> k" by (cases j) auto
  with Cons.IH[of k] show ?case by simp
qed

lemma length_keep_cells_eq:
  "length xs = length m \<Longrightarrow> length (keep_cells m xs) = length (filter (\<lambda>b. b) m)"
  by (simp add: length_keep_cells)

lemma row_keys_keep:
  assumes "length m = n" and "\<forall>c\<in>set cs. length c = n"
  shows "row_keys (length (filter (\<lambda>b. b) m)) (map (keep_cells m) cs) = keep_cells m (row_keys n cs)"
  using assms(2)
proof (induction cs)
  case Nil
  then show ?case by (simp add: keep_cells_replicate[OF assms(1)])
next
  case (Cons c cs)
  have "length c = length (row_keys n cs)" using Cons.prems length_row_keys[of cs n] by simp
  from keep_cells_map_zip[OF this, of m "\<lambda>(x, y). x # y"] Cons show ?case by simp
qed

lemma first_mask_cong: "set s = set s' \<Longrightarrow> first_mask s ks = first_mask s' ks"
  by (induction ks arbitrary: s s') auto

lemma first_mask_kept:
  "first_mask seen (keep_cells (first_mask seen ks) ks)
     = replicate (length (keep_cells (first_mask seen ks) ks)) True"
proof (induction ks arbitrary: seen)
  case Nil
  then show ?case by simp
next
  case (Cons k ks)
  show ?case
  proof (cases "k \<in> set seen")
    case True
    then have "set (k # seen) = set seen" by auto
    from first_mask_cong[OF this] Cons.IH[of "k # seen"] True show ?thesis by simp
  next
    case False
    with Cons.IH[of "k # seen"] show ?thesis by simp
  qed
qed

lemma keep_rows_all:
  assumes "\<forall>(n, c)\<in>set T. length (cells c) \<le> j"
  shows "keep_rows (replicate j True) T = T"
proof -
  have "map (\<lambda>(n, c). (n, Column (dtype c) (keep_cells (replicate j True) (cells c)))) T = map (\<lambda>p. p) T"
    using assms by (intro map_cong) (auto simp: keep_cells_all)
  then show ?thesis by (simp add: keep_rows_def)
qed

lemma sel_cols_keep_rows:
  "sel_cols (keep_rows m T) names = map (keep_cells m) (sel_cols T names)"
  by (induction names) (auto simp: sel_cols_def map_of_keep_rows split: option.splits)

lemma drop_duplicates_wf: "wf T \<Longrightarrow> wf (drop_duplicates by T)"
  by (simp add: drop_duplicates_def wf_keep_rows)

lemma drop_duplicates_idem:
  assumes "wf T"
  shows "drop_duplicates (columns (drop_duplicates (columns T) T)) (drop_duplicates (columns T) T)
         = drop_duplicates (columns T) T"
proof (cases "T = []")
  case True
  then show ?thesis by (simp add: drop_duplicates_def keep_rows_def)
next
  case False
  let ?n = "nrows T"
  let ?cs = "sel_cols T (columns T)"
  let ?ks = "row_keys ?n ?cs"
  let ?m = "first_mask [] ?ks"
  let ?D = "keep_rows ?m T"
  have D: "drop_duplicates (columns T) T = ?D" by (simp add: drop_duplicates_def)
  have lens: "\<forall>c\<in>set ?cs. length c = ?n" using sel_cols_lengths[OF assms] .
  have lk: "length ?ks = ?n" using length_row_keys[OF lens] .
  have lm: "length ?m = ?n" using lk by (simp add: length_first_mask)
  have nD: "nrows ?D = length (filter (\<lambda>b. b) ?m)"
    using nrows_keep_rows[OF False, of ?m] lm by simp
  have wD: "wf ?D" using wf_keep_rows[OF assms] .
  have "row_keys (nrows ?D) (sel_cols ?D (columns ?D)) = keep_cells ?m ?ks"
    using row_keys_keep[OF lm lens] nD by (simp add: sel_cols_keep_rows columns_keep_rows)
  then have m2: "first_mask [] (row_keys (nrows ?D) (sel_cols ?D (columns ?D)))
      = replicate (length (keep_cells ?m ?ks)) True"
    using first_mask_kept[of "[]" ?ks] by simp
  have "length (keep_cells ?m ?ks) = nrows ?D"
    using length_keep_cells_eq[of ?ks ?m] lk lm nD by simp
  moreover have "\<forall>(n, c)\<in>set ?D. length (cells c) \<le> nrows ?D" using wD by (auto simp: wf_def)
  ultimately have "keep_rows (replicate (length (keep_cells ?m ?ks)) True) ?D = ?D"
    using keep_rows_all[of ?D "nrows ?D"] by simp
  with m2 D show ?thesis by (simp add: drop_duplicates_def)
qed

section \<open>Imputation and duplicate removal\<close>

lemma dtype_fillna [simp]: "dtype (fillna v c) = dtype c"
  by (simp add: fillna_def)

lemma length_fillna [simp]: "length (cells (fillna v c)) = length (cells c)"
  by (simp add: fillna_def)

lemma NA_fillna: "v \<noteq> NA \<Longrightarrow> NA \<notin> set (cells (fillna v c))"
  by (auto simp: fillna_def)

lemma quantile_None: "quantile q xs = None \<longleftrightarrow> xs = []"
  by (simp add: quantile_def Let_def)

lemma nums_empty_iff: "nums c = [] \<longleftrightarrow> (\<forall>x\<in>set (cells c). \<forall>v. x \<noteq> Num v)"
  by (auto simp: nums_def split: cell.splits)

lemma fold_pick:
  assumes "\<And>v b. better v b = v \<or> better v b = b"
  shows "fold better vs v \<in> set (v # vs)"
proof (induction vs arbitrary: v)
  case Nil
  then show ?case by simp
next
  case (Cons a vs)
  from assms[of a v] Cons.IH[of "better a v"] show ?case by auto
qed

lemma mode_not_NA: "mode c = Some m \<Longrightarrow> m \<noteq> NA"
proof -
  assume a: "mode c = Some m"
  let ?xs = "filter (\<lambda>x. x \<noteq> NA) (cells c)"
  let ?better = "\<lambda>v b. if count_list ?xs b < count_list ?xs v
                             \<or> (count_list ?xs v = count_list ?xs b \<and> cell_before (dtype c) v b)
                           then v else b"
  from a obtain v vs where r: "remdups ?xs = v # vs" and m: "m = fold ?better vs v"
    by (auto simp: mode_def Let_def split: list.splits)
  have "fold ?better vs v \<in> set (v # vs)" by (rule fold_pick) simp
  with r m have "m \<in> set (remdups ?xs)" by simp
  then show ?thesis by simp
qed

lemma fill_col_props:
  assumes "fill_col c = Inr c'"
  shows "dtype c' = dtype c" and "length (cells c') = length (cells c)"
  using assms
  by (auto simp: fill_col_def fill_numeric_def fill_categorical_def
      split: if_splits option.splits dtype.splits)

lemma fill_col_result:
  assumes "fill_col c = Inr c'"
  shows "NA \<notin> set (cells c') \<or> (dtype c = Numeric \<and> nums c' = []) \<or> dtype c = Datetime"
proof (cases "dtype c")
  case Numeric
  with assms have c': "c' = fill_numeric c" by (simp add: fill_col_def)
  show ?thesis
  proof (cases "NA \<in> set (cells c)")
    case False
    with c' show ?thesis by (simp add: fill_numeric_def)
  next
    case True
    show ?thesis
    proof (cases "quantile (1/2) (nums c)")
      case None
      then have "nums c = []" by (simp add: quantile_None)
      with c' True None Numeric show ?thesis by (simp add: fill_numeric_def)
    next
      case (Some m)
      with c' True have "c' = fillna (Num m) c" by (simp add: fill_numeric_def)
      then show ?thesis using NA_fillna[of "Num m" c] by simp
    qed
  qed
next
  case Object
  with assms have f: "fill_categorical c = Inr c'" by (simp add: fill_col_def)
  then show ?thesis using Object
    by (auto simp: fill_categorical_def NA_fillna split: if_splits option.splits dest: mode_not_NA)
next
  case (Category cats)
  with assms have f: "fill_categorical c = Inr c'" by (simp add: fill_col_def is_category_def)
  then show ?thesis using Category
    by (auto simp: fill_categorical_def NA_fillna split: if_splits option.splits dest: mode_not_NA)
next
  case Datetime
  then show ?thesis by simp
qed

lemma fill_col_fixed:
  assumes "fill_col c = Inr c'" and "dtype k = dtype c'" and "set (cells k) \<subseteq> set (cells c')"
  shows "fill_col k = Inr k"
proof -
  have dk: "dtype k = dtype c" using assms(2) fill_col_props(1)[OF assms(1)] by simp
  from fill_col_result[OF assms(1)] consider
    (a) "NA \<notin> set (cells c')" | (b) "dtype c = Numeric" "nums c' = []" | (c) "dtype c = Datetime"
    by blast
  then show ?thesis
  proof cases
    case a
    then have "NA \<notin> set (cells k)" using assms(3) by blast
    then show ?thesis by (simp add: fill_col_def fill_numeric_def fill_categorical_def)
  next
    case b
    then have "nums k = []" using assms(3) by (auto simp: nums_empty_iff)
    then have "quantile (1/2) (nums k) = None" by (simp add: quantile_None)
    then show ?thesis using b(1) dk by (simp add: fill_col_def fill_numeric_def)
  next
    case c
    then show ?thesis using dk by (simp add: fill_col_def is_category_def)
  qed
qed

lemma dtype_fill_numeric [simp]: "dtype (fill_numeric c) = dtype c"
  by (simp add: fill_numeric_def split: option.splits)

lemma handle_missing_values_cols:
  assumes "handle_missing_values df = Inr T" and "distinct (columns df)"
  shows "columns T = columns df"
    and "map_of df n = Some c \<Longrightarrow> \<exists>c'. fill_col c = Inr c' \<and> map_of T n = Some c'"
proof -
  from assms(1) obtain T1 where
    s1: "for_cols (numeric_cols df) (\<lambda>c. Inr (fill_numeric c)) df = Inr T1"
    and s2: "for_cols (categorical_cols T1) fill_categorical T1 = Inr T"
    unfolding handle_missing_values_def bind_Inr by blast
  have c1: "columns T1 = columns df" using for_cols_columns[OF s1] .
  then have d1: "distinct (columns T1)" using assms(2) by simp
  show "columns T = columns df" using for_cols_columns[OF s2] c1 by simp
  assume n: "map_of df n = Some c"
  show "\<exists>c'. fill_col c = Inr c' \<and> map_of T n = Some c'"
  proof (cases "dtype c = Numeric")
    case True
    then have "n \<in> set (numeric_cols df)" using n numeric_cols_iff[OF assms(2)] by blast
    from for_cols_touched[OF s1 distinct_numeric_cols[OF assms(2)] this] n
    have t1: "map_of T1 n = Some (fill_numeric c)" by auto
    have "n \<notin> set (categorical_cols T1)"
      using categorical_cols_iff[OF d1, of n] t1 True by (simp add: is_category_def)
    from for_cols_other[OF s2 this] t1 True show ?thesis by (simp add: fill_col_def)
  next
    case False
    then have "n \<notin> set (numeric_cols df)" using n numeric_cols_iff[OF assms(2), of n] by auto
    from for_cols_other[OF s1 this] n have t1: "map_of T1 n = Some c" by simp
    show ?thesis
    proof (cases "dtype c = Object \<or> is_category (dtype c)")
      case True
      then have "n \<in> set (categorical_cols T1)" using categorical_cols_iff[OF d1, of n] t1 by simp
      from for_cols_touched[OF s2 distinct_categorical_cols[OF d1] this] t1 False True
      show ?thesis by (auto simp: fill_col_def)
    next
      case nc: False
      then have "n \<notin> set (categorical_cols T1)" using categorical_cols_iff[OF d1, of n] t1 by simp
      from for_cols_other[OF s2 this] t1 False nc show ?thesis by (simp add: fill_col_def)
    qed
  qed
qed

lemma handle_missing_values_entry:
  assumes "handle_missing_values df = Inr T" and "distinct (columns df)" and "(n, c') \<in> set T"
  shows "\<exists>c. map_of df n = Some c \<and> fill_col c = Inr c'"
proof -
  have cT: "columns T = columns df" using handle_missing_values_cols(1)[OF assms(1,2)] .
  then have dT: "distinct (columns T)" using assms(2) by simp
  have mT: "map_of T n = Some c'" using map_of_distinct_in[OF dT assms(3)] .
  then have "n \<in> set (columns T)" by (simp add: in_columns_iff)
  then have "n \<in> set (columns df)" using cT by simp
  then obtain c where c: "map_of df n = Some c" by (auto simp: in_columns_iff)
  from handle_missing_values_cols(2)[OF assms(1,2) c] mT c show ?thesis by auto
qed

lemma handle_missing_values_wf:
  assumes "handle_missing_values df = Inr T" and "distinct (columns df)" and "wf df"
  shows "wf T"
proof -
  have len: "length (cells c') = nrows df" if "(n, c') \<in> set T" for n c'
  proof -
    from handle_missing_values_entry[OF assms(1,2) that] obtain c where
      c: "map_of df n = Some c" and f: "fill_col c = Inr c'" by blast
    from wf_lookup[OF assms(3) c] fill_col_props(2)[OF f] show ?thesis by simp
  qed
  show ?thesis
  proof (cases T)
    case Nil
    then show ?thesis by (simp add: wf_def)
  next
    case (Cons a list)
    obtain n c where a: "a = (n, c)" by (cases a)
    then have "nrows T = length (cells c)" using Cons by (simp add: nrows_def)
    moreover have "length (cells c) = nrows df" using len[of n c] a Cons by simp
    ultimately show ?thesis using len by (auto simp: wf_def)
  qed
qed

lemma handle_missing_values_fixed:
  assumes "distinct (columns T)" and "\<forall>(n, c)\<in>set T. fill_col c = Inr c"
  shows "handle_missing_values T = Inr T"
proof -
  have "\<forall>col\<in>set (numeric_cols T). \<exists>c. map_of T col = Some c \<and> Inr (fill_numeric c) = (Inr c :: error + column)"
  proof
    fix col assume "col \<in> set (numeric_cols T)"
    then obtain c where c: "map_of T col = Some c" and d: "dtype c = Numeric"
      using numeric_cols_iff[OF assms(1)] by blast
    from c have "(col, c) \<in> set T" by (rule map_of_SomeD)
    with assms(2) d have "fill_numeric c = c" by (auto simp: fill_col_def)
    with c show "\<exists>c. map_of T col = Some c \<and> Inr (fill_numeric c) = (Inr c :: error + column)" by simp
  qed
  then have s1: "for_cols (numeric_cols T) (\<lambda>c. Inr (fill_numeric c)) T = Inr T"
    by (rule for_cols_fixed)
  have "\<forall>col\<in>set (categorical_cols T). \<exists>c. map_of T col = Some c \<and> fill_categorical c = Inr c"
  proof
    fix col assume "col \<in> set (categorical_cols T)"
    then obtain c where c: "map_of T col = Some c" and d: "dtype c = Object \<or> is_category (dtype c)"
      using categorical_cols_iff[OF assms(1)] by blast
    from c have "(col, c) \<in> set T" by (rule map_of_SomeD)
    with assms(2) d have "fill_categorical c = Inr c"
      by (auto simp: fill_col_def is_category_def split: if_splits)
    with c show "\<exists>c. map_of T col = Some c \<and> fill_categorical c = Inr c" by simp
  qed
  then have s2: "for_cols (categorical_cols T) fill_categorical T = Inr T"
    by (rule for_cols_fixed)
  from s1 s2 show ?thesis by (simp add: handle_missing_values_def bind_def)
qed

text \<open>
  Claim C3, as amended. The imputation and duplicate-removal stage of
  \<open>clean_nhamcs_data\<close> is idempotent: on a table with distinct column names and
  columns of equal length, when the stage returns a table, applying it to that table
  returns it unchanged (nothing more is imputed, no further row is removed). The whole
  function is not idempotent, because the clip is not.
\<close>

theorem dedup_missing_idempotent:
  assumes "wf df" and "distinct (columns df)" and "dedup_missing df = Inr T"
  shows "dedup_missing T = Inr T"
proof -
  from assms(3) obtain F where f: "handle_missing_values df = Inr F"
    and T: "T = drop_duplicates (columns F) F"
    unfolding dedup_missing_def bind_Inr by auto
  have cF: "columns F = columns df" using handle_missing_values_cols(1)[OF f assms(2)] .
  have wF: "wf F" using handle_missing_values_wf[OF f assms(2,1)] .
  have cT: "columns T = columns F" using T by (simp add: drop_duplicates_def columns_keep_rows)
  then have dT: "distinct (columns T)" using cF assms(2) by simp
  have "\<forall>(n, k)\<in>set T. fill_col k = Inr k"
  proof clarify
    fix n k assume "(n, k) \<in> set T"
    then obtain c' where in_F: "(n, c') \<in> set F"
      and k: "k = Column (dtype c') (keep_cells (first_mask [] (row_keys (nrows F) (sel_cols F (columns F)))) (cells c'))"
      using T by (auto simp: drop_duplicates_def keep_rows_def)
    from handle_missing_values_entry[OF f assms(2) in_F] obtain c where
      "fill_col c = Inr c'" by blast
    moreover have "dtype k = dtype c'" using k by simp
    moreover have "set (cells k) \<subseteq> set (cells c')" using k set_keep_cells by simp
    ultimately show "fill_col k = Inr k" by (rule fill_col_fixed)
  qed
  from handle_missing_values_fixed[OF dT this] have "handle_missing_values T = Inr T" .
  moreover have "drop_duplicates (columns T) T = T"
    using drop_duplicates_idem[OF wF] T by simp
  ultimately show ?thesis by (simp add: dedup_missing_def bind_def)
qed

section \<open>Cleaning of the primary table: examples\<close>

lemmas nhamcs_eval = clean_nhamcs_data_def pre_clip_def dedup_missing_def handle_missing_values_def
  bind_def numeric_cols_def categorical_cols_def fill_numeric_def fill_categorical_def
  drop_duplicates_def columns_def nrows_def sel_cols_def keep_rows_def
  add_visit_date_def add_age_group_def add_arrival_def add_high_acuity_def add_has_insurance_def
  strip_diag_def add_date_parts_def clip_outliers_def clip_col_def clip_upper_def std_positive_def
  variance_def mean_def nums_def quantile_def Let_def is_category_def

text \<open>
  The clip at the 99th percentile is not idempotent: 0, 100 is clipped to 0, 99, and
  cleaning that table again clips it to 0, 98.01.
\<close>

theorem clean_nhamcs_data_idempotent_counterexample:
  "clean_nhamcs_data \<lparr>parse_date = (\<lambda>s. None), parse_num = (\<lambda>s. None), to_str = (\<lambda>c. [])\<rparr>
     [(''x'', Column Numeric [Num 0, Num 100])]
     = Inr [(''x'', Column Numeric [Num 0, Num 99])] \<and>
   clean_nhamcs_data \<lparr>parse_date = (\<lambda>s. None), parse_num = (\<lambda>s. None), to_str = (\<lambda>c. [])\<rparr>
     [(''x'', Column Numeric [Num 0, Num 99])]
     = Inr [(''x'', Column Numeric [Num 0, Num (9801 / 100)])]"
  by (simp add: nhamcs_eval)

theorem dedup_missing_idempotent_witness:
  "dedup_missing [(''x'', Column Numeric [Num 1, NA, Num 1, Num 3]),
                  (''s'', Column Object [Str ''a'', Str ''a'', NA, Str ''b''])]
     = Inr [(''x'', Column Numeric [Num 1, Num 3]), (''s'', Column Object [Str ''a'', Str ''b''])] \<and>
   dedup_missing [(''x'', Column Numeric [Num 1, Num 3]), (''s'', Column Object [Str ''a'', Str ''b''])]
     = Inr [(''x'', Column Numeric [Num 1, Num 3]), (''s'', Column Object [Str ''a'', Str ''b''])]"
proof -
  let ?df = "[(''x'', Column Numeric [Num 1, NA, Num 1, Num 3]),
              (''s'', Column Object [Str ''a'', Str ''a'', NA, Str ''b''])]"
  let ?T = "[(''x'', Column Numeric [Num 1, Num 3]), (''s'', Column Object [Str ''a'', Str ''b''])]"
  have h1: "wf ?df" by (simp add: wf_def nrows_def)
  have h2: "distinct (columns ?df)" by (simp add: columns_def)
  have h3: "dedup_missing ?df = Inr ?T"
    by (simp add: nhamcs_eval mode_def fillna_def)
  from dedup_missing_idempotent[OF h1 h2 h3] h3 show ?thesis by simp
qed

section \<open>Stages of the primary cleaning\<close>

lemma for_cols_map:
  assumes "distinct (columns T)" and "for_cols (numeric_cols T) (\<lambda>c. Inr (h c)) T = Inr T'"
  shows "T' = map (\<lambda>(n, c). (n, if dtype c = Numeric then h c else c)) T"
proof -
  let ?M = "map (\<lambda>(n, c). (n, if dtype c = Numeric then h c else c)) T"
  have cM: "columns ?M = columns T" by (simp add: columns_def case_prod_unfold comp_def)
  have cT': "columns T' = columns ?M" using for_cols_columns[OF assms(2)] cM by simp
  have dM: "distinct (columns ?M)" using assms(1) cM by simp
  have "\<forall>n\<in>set (columns ?M). map_of T' n = map_of ?M n"
  proof
    fix n assume "n \<in> set (columns ?M)"
    then obtain c where c: "map_of T n = Some c" using cM by (auto simp: in_columns_iff)
    have mM: "map_of ?M n = Some (if dtype c = Numeric then h c else c)"
      using c by (simp add: map_of_map_cols)
    show "map_of T' n = map_of ?M n"
    proof (cases "dtype c = Numeric")
      case True
      then have "n \<in> set (numeric_cols T)" using c numeric_cols_iff[OF assms(1)] by blast
      from for_cols_touched[OF assms(2) distinct_numeric_cols[OF assms(1)] this] c True mM
      show ?thesis by auto
    next
      case False
      then have "n \<notin> set (numeric_cols T)" using c numeric_cols_iff[OF assms(1), of n] by auto
      from for_cols_other[OF assms(2) this] c False mM show ?thesis by simp
    qed
  qed
  from table_ext[OF dM cT' this] show ?thesis .
qed

lemma distinct_assign: "distinct (columns T) \<Longrightarrow> distinct (columns (assign n c T))"
proof (induction T)
  case Nil
  then show ?case by (simp add: columns_def)
next
  case (Cons a T)
  obtain m d where a: "a = (m, d)" by (cases a)
  have sub: "set (columns (assign n c T)) \<subseteq> insert n (set (columns T))"
    using set_assign[of n c T] by (auto simp: columns_def)
  show ?case
  proof (cases "m = n")
    case True
    with Cons.prems a show ?thesis by (simp add: columns_def)
  next
    case False
    have "m \<notin> set (columns T)" and "distinct (columns T)"
      using Cons.prems a by (simp_all add: columns_def)
    with Cons.IH sub False a show ?thesis by (auto simp: columns_def)
  qed
qed

lemma columns_assign_sub: "set (columns T) \<subseteq> set (columns (assign n c T))"
  by (auto simp: in_columns_iff map_of_assign)

lemma numeric_at_assign: "m \<noteq> n \<Longrightarrow> numeric_at n T \<Longrightarrow> numeric_at n (assign m c T)"
  by (simp add: numeric_at_def map_of_assign)

lemma numeric_at_assign_new: "dtype c = Numeric \<Longrightarrow> numeric_at n (assign n c T)"
  by (simp add: numeric_at_def map_of_assign)

lemma stage_ok_refl: "stage_ok A T T"
  by (simp add: stage_ok_def)

lemma stage_ok_trans: "stage_ok A T T1 \<Longrightarrow> stage_ok B T1 T2 \<Longrightarrow> stage_ok (A \<union> B) T T2"
  unfolding stage_ok_def by blast

lemma stage_ok_mono: "stage_ok A T T' \<Longrightarrow> A \<subseteq> B \<Longrightarrow> stage_ok B T T'"
  unfolding stage_ok_def by blast

lemma stage_ok_assign: "stage_ok {m} T (assign m c T)"
  using columns_assign_sub[of T m c]
  by (auto simp: stage_ok_def distinct_assign numeric_at_assign)

lemma stage_ok_for_cols:
  assumes "for_cols cols g T = Inr T'"
  shows "stage_ok (set cols) T T'"
  using for_cols_columns[OF assms] for_cols_other[OF assms]
  by (auto simp: stage_ok_def numeric_at_def)

section \<open>The clip comes last\<close>

lemma add_visit_date_ok:
  "stage_ok {''visit_date''} T (add_visit_date lib T)"
  "''VDATE'' \<in> set (columns T) \<Longrightarrow> ''visit_date'' \<in> set (columns (add_visit_date lib T))"
  by (auto simp: add_visit_date_def in_columns_iff map_of_assign stage_ok_refl stage_ok_assign
      split: option.splits)

lemma add_age_group_ok: "add_age_group T = Inr T' \<Longrightarrow> stage_ok {''age_group''} T T'"
  by (auto simp: add_age_group_def stage_ok_refl stage_ok_assign split: option.splits sum.splits)

lemma dtype_flag [simp]: "dtype (flag p c) = Numeric"
  by (simp add: flag_def)

lemma add_arrival_ok:
  assumes "add_arrival lib T = Inr T'"
  shows "stage_ok {''arrival_hour'', ''time_of_day''} T T'"
    and "''ARRTIME'' \<in> set (columns T) \<Longrightarrow> numeric_at ''arrival_hour'' T'"
proof -
  show "stage_ok {''arrival_hour'', ''time_of_day''} T T'"
  proof (cases "map_of T ''ARRTIME''")
    case None
    with assms show ?thesis by (simp add: add_arrival_def stage_ok_refl)
  next
    case (Some c)
    with assms obtain h g where "T' = assign ''time_of_day'' g (assign ''arrival_hour'' h T)"
      by (auto simp: add_arrival_def Let_def split: option.splits sum.splits)
    then have "stage_ok ({''arrival_hour''} \<union> {''time_of_day''}) T T'"
      by (simp only: stage_ok_trans[OF stage_ok_assign stage_ok_assign])
    then show ?thesis by (rule stage_ok_mono) auto
  qed
  assume "''ARRTIME'' \<in> set (columns T)"
  then obtain c where c: "map_of T ''ARRTIME'' = Some c" by (auto simp: in_columns_iff)
  with assms obtain g where "T' = assign ''time_of_day'' g
      (assign ''arrival_hour''
         (Column Numeric (map (\<lambda>x. floordiv 100 (to_numeric (parse_num lib) x)) (cells c))) T)"
    by (auto simp: add_arrival_def Let_def split: option.splits sum.splits)
  then show "numeric_at ''arrival_hour'' T'"
    by (simp add: numeric_at_def map_of_assign)
qed

lemma add_high_acuity_ok:
  "stage_ok {''high_acuity''} T (add_high_acuity T)"
  "''IMMEDR'' \<in> set (columns T) \<Longrightarrow> numeric_at ''high_acuity'' (add_high_acuity T)"
  by (auto simp: add_high_acuity_def in_columns_iff numeric_at_def map_of_assign
      stage_ok_refl stage_ok_assign split: option.splits)

lemma add_has_insurance_ok:
  "stage_ok {''has_insurance''} T (add_has_insurance T)"
  "''PAYTYPER'' \<in> set (columns T) \<Longrightarrow> numeric_at ''has_insurance'' (add_has_insurance T)"
  by (auto simp: add_has_insurance_def in_columns_iff numeric_at_def map_of_assign
      stage_ok_refl stage_ok_assign split: option.splits)

lemma strip_diag_ok: "strip_diag lib T = Inr T' \<Longrightarrow> stage_ok {n. contains ''DIAG'' n} T T'"
  unfolding strip_diag_def by (rule stage_ok_mono[OF stage_ok_for_cols]) auto

lemma dt_field_dtype: "dt_field f c = Inr w \<Longrightarrow> dtype w = Numeric"
  by (auto simp: dt_field_def split: if_splits)

lemma add_date_parts_ok:
  assumes "add_date_parts T = Inr T'"
  shows "stage_ok {''day_of_week'', ''is_weekend'', ''month''} T T'"
    and "''visit_date'' \<in> set (columns T) \<Longrightarrow>
         numeric_at ''day_of_week'' T' \<and> numeric_at ''is_weekend'' T' \<and> numeric_at ''month'' T'"
proof -
  show "stage_ok {''day_of_week'', ''is_weekend'', ''month''} T T'"
  proof (cases "map_of T ''visit_date''")
    case None
    with assms show ?thesis by (simp add: add_date_parts_def stage_ok_refl)
  next
    case (Some c)
    with assms obtain w e m where
      "T' = assign ''month'' m (assign ''is_weekend'' e (assign ''day_of_week'' w T))"
      by (auto simp: add_date_parts_def Let_def split: option.splits sum.splits)
    then have "stage_ok (({''day_of_week''} \<union> {''is_weekend''}) \<union> {''month''}) T T'"
      by (simp only: stage_ok_trans[OF stage_ok_trans[OF stage_ok_assign stage_ok_assign] stage_ok_assign])
    then show ?thesis by (rule stage_ok_mono) auto
  qed
  assume "''visit_date'' \<in> set (columns T)"
  then obtain c where c: "map_of T ''visit_date'' = Some c" by (auto simp: in_columns_iff)
  with assms obtain w w1 m where w: "dt_field dayofweek c = Inr w"
    and m: "dtype m = Numeric"
    and T': "T' = assign ''month'' m
        (assign ''is_weekend'' (flag (\<lambda>x. case x of Num v \<Rightarrow> 5 \<le> v | _ \<Rightarrow> False) w1)
          (assign ''day_of_week'' w T))"
    by (auto simp: add_date_parts_def Let_def split: option.splits sum.splits dest: dt_field_dtype)
  from T' m dt_field_dtype[OF w]
  show "numeric_at ''day_of_week'' T' \<and> numeric_at ''is_weekend'' T' \<and> numeric_at ''month'' T'"
    by (simp add: numeric_at_def map_of_assign)
qed

lemma dedup_missing_columns:
  assumes "dedup_missing df = Inr T" and "distinct (columns df)"
  shows "columns T = columns df"
proof -
  from assms(1) obtain F where f: "handle_missing_values df = Inr F"
    and T: "T = drop_duplicates (columns F) F"
    unfolding dedup_missing_def bind_Inr by auto
  from handle_missing_values_cols(1)[OF f assms(2)] T show ?thesis
    by (simp add: drop_duplicates_def columns_keep_rows)
qed

text \<open>
  Claim C10. For a table with distinct column names, when \<open>clean_nhamcs_data\<close> returns
  a table, that table is the table left by imputation, duplicate removal and the derived
  columns, with every numeric column replaced by its clip (at the 99th percentile when its
  standard deviation is positive, unchanged otherwise) and every other column unchanged.
  The derived columns \<open>arrival_hour\<close>, \<open>high_acuity\<close>, \<open>has_insurance\<close>,
  \<open>day_of_week\<close>, \<open>is_weekend\<close> and \<open>month\<close> are numeric columns of that
  intermediate table whenever their source column is present, so the clip applies to them.
\<close>

theorem clean_nhamcs_data_clip_last:
  assumes "distinct (columns df)" and "clean_nhamcs_data lib df = Inr out"
  shows "\<exists>mid. pre_clip lib df = Inr mid \<and>
           out = map (\<lambda>(n, c). (n, if dtype c = Numeric then clip_col c else c)) mid \<and>
           (''ARRTIME'' \<in> set (columns df) \<longrightarrow> numeric_at ''arrival_hour'' mid) \<and>
           (''IMMEDR'' \<in> set (columns df) \<longrightarrow> numeric_at ''high_acuity'' mid) \<and>
           (''PAYTYPER'' \<in> set (columns df) \<longrightarrow> numeric_at ''has_insurance'' mid) \<and>
           (''VDATE'' \<in> set (columns df) \<or> ''visit_date'' \<in> set (columns df) \<longrightarrow>
              numeric_at ''day_of_week'' mid \<and> numeric_at ''is_weekend'' mid \<and>
              numeric_at ''month'' mid)"
proof -
  from assms(2) obtain mid where mid: "pre_clip lib df = Inr mid" and cl: "clip_outliers mid = Inr out"
    unfolding clean_nhamcs_data_def bind_Inr by blast
  from mid obtain T0 T2 T3 T6 where
    s0: "dedup_missing df = Inr T0"
    and s2: "add_age_group (add_visit_date lib T0) = Inr T2"
    and s3: "add_arrival lib T2 = Inr T3"
    and s6: "strip_diag lib (add_has_insurance (add_high_acuity T3)) = Inr T6"
    and s7: "add_date_parts T6 = Inr mid"
    unfolding pre_clip_def bind_Inr by blast
  let ?T1 = "add_visit_date lib T0"
  let ?T4 = "add_high_acuity T3"
  let ?T5 = "add_has_insurance ?T4"
  have c0: "columns T0 = columns df" using dedup_missing_columns[OF s0 assms(1)] .
  have d0: "distinct (columns T0)" using c0 assms(1) by simp
  note k1 = add_visit_date_ok(1)[where T = T0 and lib = lib]
  note k2 = add_age_group_ok[OF s2]
  note k3 = add_arrival_ok(1)[OF s3]
  note k4 = add_high_acuity_ok(1)[where T = T3]
  note k5 = add_has_insurance_ok(1)[where T = ?T4]
  note k6 = strip_diag_ok[OF s6]
  note k7 = add_date_parts_ok(1)[OF s7]
  have d1: "distinct (columns ?T1)" using d0 k1 by (simp add: stage_ok_def)
  have d2: "distinct (columns T2)" using d1 k2 by (simp add: stage_ok_def)
  have d3: "distinct (columns T3)" using d2 k3 by (simp add: stage_ok_def)
  have d4: "distinct (columns ?T4)" using d3 k4 by (simp add: stage_ok_def)
  have d5: "distinct (columns ?T5)" using d4 k5 by (simp add: stage_ok_def)
  have d6: "distinct (columns T6)" using d5 k6 by (simp add: stage_ok_def)
  have dmid: "distinct (columns mid)" using d6 k7 by (simp add: stage_ok_def)
  have sub1: "set (columns df) \<subseteq> set (columns ?T1)" using c0 k1 by (simp add: stage_ok_def)
  have s12: "set (columns ?T1) \<subseteq> set (columns T2)" using k2 by (simp add: stage_ok_def)
  have s23: "set (columns T2) \<subseteq> set (columns T3)" using k3 by (simp add: stage_ok_def)
  have s34: "set (columns T3) \<subseteq> set (columns ?T4)" using k4 by (simp add: stage_ok_def)
  have s45: "set (columns ?T4) \<subseteq> set (columns ?T5)" using k5 by (simp add: stage_ok_def)
  have s56: "set (columns ?T5) \<subseteq> set (columns T6)" using k6 by (simp add: stage_ok_def)
  have sub2: "set (columns df) \<subseteq> set (columns T2)" using sub1 s12 by blast
  have sub3: "set (columns df) \<subseteq> set (columns T3)" using sub2 s23 by blast
  have sub4: "set (columns df) \<subseteq> set (columns ?T4)" using sub3 s34 by blast
  have vd: "''VDATE'' \<in> set (columns df) \<or> ''visit_date'' \<in> set (columns df) \<Longrightarrow>
      ''visit_date'' \<in> set (columns T6)"
  proof -
    assume "''VDATE'' \<in> set (columns df) \<or> ''visit_date'' \<in> set (columns df)"
    then have "''visit_date'' \<in> set (columns ?T1)"
      using add_visit_date_ok(2)[where T = T0 and lib = lib] c0 sub1 by auto
    then show ?thesis using s12 s23 s34 s45 s56 by blast
  qed
  have a: "''ARRTIME'' \<in> set (columns df) \<longrightarrow> numeric_at ''arrival_hour'' mid"
  proof
    assume "''ARRTIME'' \<in> set (columns df)"
    then have "numeric_at ''arrival_hour'' T3" using add_arrival_ok(2)[OF s3] sub2 by blast
    then have "numeric_at ''arrival_hour'' ?T5" using k4 k5 unfolding stage_ok_def by simp
    then have "numeric_at ''arrival_hour'' T6" using k6 unfolding stage_ok_def by simp
    then show "numeric_at ''arrival_hour'' mid" using k7 unfolding stage_ok_def by simp
  qed
  have b: "''IMMEDR'' \<in> set (columns df) \<longrightarrow> numeric_at ''high_acuity'' mid"
  proof
    assume "''IMMEDR'' \<in> set (columns df)"
    then have "numeric_at ''high_acuity'' ?T4" using add_high_acuity_ok(2)[where T = T3] sub3 by blast
    then have "numeric_at ''high_acuity'' ?T5" using k5 unfolding stage_ok_def by simp
    then have "numeric_at ''high_acuity'' T6" using k6 unfolding stage_ok_def by simp
    then show "numeric_at ''high_acuity'' mid" using k7 unfolding stage_ok_def by simp
  qed
  have c: "''PAYTYPER'' \<in> set (columns df) \<longrightarrow> numeric_at ''has_insurance'' mid"
  proof
    assume "''PAYTYPER'' \<in> set (columns df)"
    then have "numeric_at ''has_insurance'' ?T5" using add_has_insurance_ok(2)[where T = ?T4] sub4 by blast
    then have "numeric_at ''has_insurance'' T6" using k6 unfolding stage_ok_def by simp
    then show "numeric_at ''has_insurance'' mid" using k7 unfolding stage_ok_def by simp
  qed
  have d: "''VDATE'' \<in> set (columns df) \<or> ''visit_date'' \<in> set (columns df) \<longrightarrow>
      numeric_at ''day_of_week'' mid \<and> numeric_at ''is_weekend'' mid \<and> numeric_at ''month'' mid"
    using vd add_date_parts_ok(2)[OF s7] by blast
  have "out = map (\<lambda>(n, c). (n, if dtype c = Numeric then clip_col c else c)) mid"
    using for_cols_map[OF dmid, of clip_col out] cl by (simp add: clip_outliers_def)
  with mid a b c d show ?thesis by blast
qed

section \<open>The clip comes last: example\<close>

theorem clean_nhamcs_data_clip_last_witness:
  "clean_nhamcs_data \<lparr>parse_date = (\<lambda>s. None), parse_num = (\<lambda>s. None), to_str = (\<lambda>c. [])\<rparr>
     [(''ARRTIME'', Column Numeric [Num 930, Num 1545]),
      (''IMMEDR'', Column Numeric [Num 1, Num 3])]
   = Inr [(''ARRTIME'', Column Numeric [Num 930, Num (153885 / 100)]),
          (''IMMEDR'', Column Numeric [Num 1, Num (298 / 100)]),
          (''arrival_hour'', Column Numeric [Num 9, Num (1494 / 100)]),
          (''time_of_day'', Column (Category [''Night'', ''Morning'', ''Afternoon'', ''Evening''])
             [Str ''Morning'', Str ''Afternoon'']),
          (''high_acuity'', Column Numeric [Num (99 / 100), Num 0])]"
proof -
  let ?lib = "\<lparr>parse_date = (\<lambda>s. None), parse_num = (\<lambda>s. None), to_str = (\<lambda>c. [])\<rparr>"
  let ?df = "[(''ARRTIME'', Column Numeric [Num 930, Num 1545]),
      (''IMMEDR'', Column Numeric [Num 1, Num 3])]"
  have h1: "distinct (columns ?df)" by (simp add: columns_def)
  have h2: "clean_nhamcs_data ?lib ?df
     = Inr [(''ARRTIME'', Column Numeric [Num 930, Num (153885 / 100)]),
          (''IMMEDR'', Column Numeric [Num 1, Num (298 / 100)]),
          (''arrival_hour'', Column Numeric [Num 9, Num (1494 / 100)]),
          (''time_of_day'', Column (Category [''Night'', ''Morning'', ''Afternoon'', ''Evening''])
             [Str ''Morning'', Str ''Afternoon'']),
          (''high_acuity'', Column Numeric [Num (99 / 100), Num 0])]"
    by (simp add: nhamcs_eval cut_col_def flag_def floordiv_def)
  from clean_nhamcs_data_clip_last[OF h1 h2] h2 show ?thesis by simp
qed

section \<open>Merging: row counts\<close>

lemma collect_Inr: "collect rs = Inr xs \<Longrightarrow> rs = map Inr xs"
proof (induction rs arbitrary: xs)
  case Nil
  then show ?case by simp
next
  case (Cons r rs)
  from Cons.prems obtain x ys where r: "r = Inr x" and ys: "collect rs = Inr ys" and xs: "xs = x # ys"
    by (auto simp: bind_Inr)
  from Cons.IH[OF ys] r xs show ?case by simp
qed

lemma collect_map_Inr: "collect (map Inr xs) = Inr xs"
  by (induction xs) (simp_all add: bind_def)

lemma distinct_group_days: "distinct (group_days dates)"
  by (simp add: group_days_def)

lemma distinct_stamps: "distinct days \<Longrightarrow> distinct (stamps days)"
  by (simp add: stamps_def distinct_map inj_on_def)

lemma filter_le1:
  "distinct xs \<Longrightarrow> (\<forall>x\<in>set xs. \<forall>y\<in>set xs. P x \<longrightarrow> P y \<longrightarrow> x = y) \<Longrightarrow> length (filter P xs) \<le> 1"
proof (induction xs)
  case Nil
  then show ?case by simp
next
  case (Cons a xs)
  show ?case
  proof (cases "P a")
    case True
    have "filter P xs = []"
    proof (rule ccontr)
      assume "filter P xs \<noteq> []"
      then obtain y where y: "y \<in> set xs" "P y" by (auto simp: filter_empty_conv)
      with Cons.prems(2) True have "a = y" by simp
      with y(1) Cons.prems(1) show False by simp
    qed
    with True show ?thesis by simp
  next
    case False
    with Cons show ?thesis by simp
  qed
qed

lemma positions_le1: "distinct ks \<Longrightarrow> length (positions k ks) \<le> 1"
  unfolding positions_def
  by (rule filter_le1) (auto simp: nth_eq_iff_index_eq)

lemma concat_single:
  "\<forall>x\<in>set xs. f x = [h x] \<Longrightarrow> concat (map f xs) = map h xs"
  by (induction xs) simp_all

lemma join_plan_single:
  assumes "distinct rks"
  shows "join_plan lks rks
      = map (\<lambda>i. (i, case positions (lks ! i) rks of [] \<Rightarrow> None | j # js \<Rightarrow> Some j)) [0..<length lks]"
proof -
  let ?f = "\<lambda>i. case positions (lks ! i) rks of
                         [] \<Rightarrow> [(i, None)]
                       | j # js \<Rightarrow> map (\<lambda>j. (i, Some j)) (j # js)"
  let ?h = "\<lambda>i. (i, case positions (lks ! i) rks of [] \<Rightarrow> None | j # js \<Rightarrow> Some j)"
  have "\<forall>i\<in>set [0..<length lks]. ?f i = [?h i]"
  proof
    fix i assume "i \<in> set [0..<length lks]"
    from positions_le1[OF assms, of "lks ! i"] show "?f i = [?h i]"
      by (cases "positions (lks ! i) rks") auto
  qed
  then have "concat (map ?f [0..<length lks]) = map ?h [0..<length lks]" by (rule concat_single)
  then show ?thesis unfolding join_plan_def .
qed

lemma length_join_plan: "distinct rks \<Longrightarrow> length (join_plan lks rks) = length lks"
  by (simp add: join_plan_single)

lemma take_left_same:
  assumes "distinct rks" and "length (cells c) = length lks"
  shows "take_left (join_plan lks rks) c = c"
proof -
  have "map (\<lambda>(i, r). cells c ! i) (join_plan lks rks) = map (\<lambda>i. cells c ! i) [0..<length (cells c)]"
    using assms(2) by (simp add: join_plan_single[OF assms(1)] comp_def)
  then show ?thesis by (simp add: take_left_def map_nth)
qed

lemma merge_left_Inr:
  assumes "merge_left sd lks rks L R = Inr M"
  shows "\<exists>ln rn. length ln = length L \<and> length rn = length R \<and>
           M = zip ln (map (\<lambda>(n, c). take_left (join_plan lks rks) c) L)
               @ zip rn (map (\<lambda>(n, c). take_right (join_plan lks rks) c) R)"
proof -
  let ?both = "filter (\<lambda>n. n \<in> set (columns R)) (columns L)"
  let ?ln = "suffixed ''_x'' ?both (columns L)"
  let ?rn = "suffixed ''_y'' ?both (columns R)"
  have "M = zip ?ln (map (\<lambda>(n, c). take_left (join_plan lks rks) c) L)
               @ zip ?rn (map (\<lambda>(n, c). take_right (join_plan lks rks) c) R)"
    using assms unfolding merge_left_def Let_def by (simp split: if_splits)
  moreover have "length ?ln = length L" "length ?rn = length R"
    by (simp_all add: suffixed_def columns_def)
  ultimately show ?thesis by blast
qed

lemma merge_left_lengths:
  assumes "merge_left sd lks rks L R = Inr M" and "distinct rks" and "(n, c) \<in> set M"
  shows "length (cells c) = length lks"
proof -
  let ?plan = "join_plan lks rks"
  from merge_left_Inr[OF assms(1)] obtain ln rn where
    M: "M = zip ln (map (\<lambda>(n, c). take_left ?plan c) L) @ zip rn (map (\<lambda>(n, c). take_right ?plan c) R)"
    by blast
  from assms(3) M have "c \<in> set (map (\<lambda>(n, c). take_left ?plan c) L)
      \<or> c \<in> set (map (\<lambda>(n, c). take_right ?plan c) R)"
    by (auto dest: set_zip_rightD)
  then have "length (cells c) = length ?plan"
    by (auto simp: take_left_def take_right_def)
  then show ?thesis using length_join_plan[OF assms(2)] by simp
qed

lemma merge_left_nonempty:
  assumes "merge_left sd lks rks L R = Inr M" and "L \<noteq> []"
  shows "M \<noteq> []"
proof -
  from merge_left_Inr[OF assms(1)] obtain ln rn where l: "length ln = length L" and
    M: "M = zip ln (map (\<lambda>(n, c). take_left (join_plan lks rks) c) L)
           @ zip rn (map (\<lambda>(n, c). take_right (join_plan lks rks) c) R)"
    by blast
  from l assms(2) have "zip ln (map (\<lambda>(n, c). take_left (join_plan lks rks) c) L) \<noteq> []"
    by (cases ln; cases L) simp_all
  with M show ?thesis by simp
qed

lemma nrows_first: "T \<noteq> [] \<Longrightarrow> \<forall>(n, c)\<in>set T. length (cells c) = k \<Longrightarrow> nrows T = k"
  by (cases T) (auto simp: nrows_def)

lemma merge_left_rows:
  assumes "merge_left sd lks rks L R = Inr M" and "distinct rks" and "L \<noteq> []"
  shows "nrows M = length lks \<and> wf M"
proof -
  have all: "\<forall>(n, c)\<in>set M. length (cells c) = length lks"
    using merge_left_lengths[OF assms(1,2)] by auto
  from nrows_first[OF merge_left_nonempty[OF assms(1,3)] all] have "nrows M = length lks" .
  with all show ?thesis by (auto simp: wf_def)
qed

lemma merge_on_visit_date_rows:
  assumes "merge_on_visit_date agg merged = Inr M" and "wf merged" and "distinct (fst agg)"
  shows "nrows M = nrows merged \<and> wf M"
proof -
  from assms(1) obtain v where v: "map_of merged ''visit_date'' = Some v"
    and m: "merge_left (dtype v = Datetime) (map Key (cells v)) (stamps (fst agg)) merged (snd agg) = Inr M"
    by (auto simp: merge_on_visit_date_def split: option.splits)
  from v have ne: "merged \<noteq> []" by auto
  from merge_left_rows[OF m distinct_stamps[OF assms(3)] ne] wf_lookup[OF assms(2) v]
  show ?thesis by simp
qed


lemma day_sizes_days: "day_sizes name src = Inr agg \<Longrightarrow> distinct (fst agg)"
  by (auto simp: day_sizes_def distinct_group_days split: option.splits if_splits)

lemma day_agg_days: "day_agg spec src = Inr agg \<Longrightarrow> distinct (fst agg)"
  by (auto simp: day_agg_def bind_Inr distinct_group_days split: option.splits if_splits)




text \<open>One source: the rows of the merged table stay as they are.\<close>

lemma with_source_rows:
  assumes "with_source src (\<lambda>s merged. bind (agg s) (\<lambda>a. join a merged)) merged = Inr M"
    and "wf merged"
    and "\<And>s a. agg s = Inr a \<Longrightarrow> distinct (fst a)"
    and "\<And>a M. join a merged = Inr M \<Longrightarrow> distinct (fst a) \<Longrightarrow> nrows M = nrows merged \<and> wf M"
  shows "nrows M = nrows merged \<and> wf M"
proof (cases src)
  case None
  with assms(1,2) show ?thesis by (simp add: with_source_def)
next
  case (Some T)
  show ?thesis
  proof (cases "nrows T = 0")
    case True
    with Some assms(1,2) show ?thesis by (simp add: with_source_def)
  next
    case False
    with Some assms(1) obtain a where a: "agg T = Inr a" and j: "join a merged = Inr M"
      by (auto simp: with_source_def bind_Inr)
    from assms(4)[OF j assms(3)[OF a]] show ?thesis .
  qed
qed


lemma fillna_all_rel:
  "fillna_all T = Inr T' \<Longrightarrow> list_all2 (\<lambda>(n, c) (n', c'). n' = n \<and> fillna0 c = Inr c') T T'"
proof (induction T arbitrary: T')
  case Nil
  then show ?case by (simp add: fillna_all_def)
next
  case (Cons a T)
  obtain n c where a: "a = (n, c)" by (cases a)
  from Cons.prems a obtain c' U where c': "fillna0 c = Inr c'" and U: "fillna_all T = Inr U"
    and T': "T' = (n, c') # U"
    by (auto simp: fillna_all_def bind_Inr)
  from Cons.IH[OF U] a c' T' show ?case by simp
qed








lemmas join_eval = with_source_def day_sizes_def day_agg_def agg_column_def merge_left_def
  join_plan_def positions_def take_left_def take_right_def suffixed_def new_dups_def stamps_def
  fillna0_def fillna_def group_days_def group_cells_def sizes_def numbers_def bind_def nrows_def
  columns_def keep_cells_def List.map_filter_def Let_def mean_def

lemmas merge_all_eval = merge_all_sources_def join_all_sources_def merge_on_visit_date_def
  fillna_all_def join_eval

lemmas merge_datasets_eval = merge_datasets_def join_sources_def cdc_agg_def reddit_agg_def
  twitter_agg_def merge_on_day_def fill_scraped_def scraped_cols_def scraped_name_def join_eval


section \<open>Merging: the columns kept by the joins\<close>

lemma map_of_first:
  "map_of T n = Some c \<Longrightarrow> \<exists>i<length T. T ! i = (n, c) \<and> n \<notin> set (take i (columns T))"
proof (induction T)
  case Nil
  then show ?case by simp
next
  case (Cons a T)
  show ?case
  proof (cases "fst a = n")
    case True
    with Cons.prems have "a = (n, c)" by (cases a) simp
    then have "(a # T) ! 0 = (n, c) \<and> n \<notin> set (take 0 (columns (a # T)))" by simp
    then show ?thesis by blast
  next
    case False
    with Cons.prems have "map_of T n = Some c" by (cases a) simp
    from Cons.IH[OF this] obtain i where i: "i < length T" "T ! i = (n, c)"
      "n \<notin> set (take i (columns T))" by blast
    have "(a # T) ! Suc i = (n, c) \<and> n \<notin> set (take (Suc i) (columns (a # T)))"
      using i False by (simp add: columns_def)
    with i(1) show ?thesis by (intro exI[of _ "Suc i"]) simp
  qed
qed

lemma map_of_zip_first:
  "i < length xs \<Longrightarrow> length ys = length xs \<Longrightarrow> xs ! i = n \<Longrightarrow> n \<notin> set (take i xs) \<Longrightarrow>
   map_of (zip xs ys @ rest) n = Some (ys ! i)"
proof (induction xs arbitrary: i ys)
  case Nil
  then show ?case by simp
next
  case (Cons x xs)
  from Cons.prems(2) obtain y ys' where ys: "ys = y # ys'" by (cases ys) simp_all
  show ?case
  proof (cases i)
    case 0
    with Cons.prems ys show ?thesis by simp
  next
    case (Suc j)
    with Cons.prems ys have "j < length xs" "length ys' = length xs" "xs ! j = n"
      "n \<notin> set (take j xs)" "x \<noteq> n" by auto
    with Cons.IH[of j ys'] Suc ys show ?thesis by simp
  qed
qed

lemma new_dups_first:
  assumes "\<not> new_dups old new" and "i < length new" and "old ! i \<notin> set (take i old)"
  shows "new ! i \<notin> set (take i new)"
proof -
  from assms(1) have "\<forall>j\<in>set [0..<length new]. \<not> (new ! j \<in> set (take j new) \<and> old ! j \<notin> set (take j old))"
    unfolding new_dups_def list_ex_iff by blast
  moreover have "i \<in> set [0..<length new]" using assms(2) by simp
  ultimately have "\<not> (new ! i \<in> set (take i new) \<and> old ! i \<notin> set (take i old))" by blast
  with assms(3) show ?thesis by blast
qed

lemma merge_left_frame:
  assumes "merge_left sd lks rks L R = Inr M" and "map_of L n = Some c" and "n \<notin> set (columns R)"
  shows "map_of M n = Some (take_left (join_plan lks rks) c)"
proof -
  let ?both = "filter (\<lambda>n. n \<in> set (columns R)) (columns L)"
  let ?ln = "suffixed ''_x'' ?both (columns L)"
  let ?rn = "suffixed ''_y'' ?both (columns R)"
  let ?ys = "map (\<lambda>(n, c). take_left (join_plan lks rks) c) L"
  have M: "M = zip ?ln ?ys @ zip ?rn (map (\<lambda>(n, c). take_right (join_plan lks rks) c) R)"
    and nd: "\<not> new_dups (columns L) ?ln"
    using assms(1) unfolding merge_left_def Let_def by (simp_all split: if_splits)
  from map_of_first[OF assms(2)] obtain i where i: "i < length L" "L ! i = (n, c)"
    "n \<notin> set (take i (columns L))" by blast
  have len: "length ?ln = length L" "length ?ys = length ?ln" by (simp_all add: suffixed_def columns_def)
  have ci: "columns L ! i = n" using i(1,2) by (simp add: columns_def)
  have lni: "?ln ! i = n" using i(1) ci assms(3) by (simp add: suffixed_def columns_def)
  have "columns L ! i \<notin> set (take i (columns L))" using ci i(3) by simp
  from new_dups_first[OF nd _ this] i(1) len(1) lni have first: "n \<notin> set (take i ?ln)" by simp
  have "i < length ?ln" using i(1) len(1) by simp
  from map_of_zip_first[OF this len(2) lni first] M
  have "map_of M n = Some (?ys ! i)" by simp
  moreover have "?ys ! i = take_left (join_plan lks rks) c" using i(1,2) by simp
  ultimately show ?thesis by simp
qed

lemma merge_left_keeps:
  assumes "merge_left sd lks rks L R = Inr M" and "map_of L n = Some c" and "n \<notin> set (columns R)"
    and "distinct rks" and "length (cells c) = length lks"
  shows "map_of M n = Some c"
  using merge_left_frame[OF assms(1,2,3)] take_left_same[OF assms(4,5)] by simp

lemma merge_on_visit_date_keeps:
  assumes "merge_on_visit_date agg merged = Inr M" and "wf merged" and "distinct (fst agg)"
    and "map_of merged n = Some c" and "n \<notin> set (columns (snd agg))"
  shows "map_of M n = Some c"
proof -
  from assms(1) obtain v where v: "map_of merged ''visit_date'' = Some v"
    and m: "merge_left (dtype v = Datetime) (map Key (cells v)) (stamps (fst agg)) merged (snd agg) = Inr M"
    by (auto simp: merge_on_visit_date_def split: option.splits)
  have "length (cells c) = length (map Key (cells v))"
    using wf_lookup[OF assms(2) v] wf_lookup[OF assms(2,4)] by simp
  from merge_left_keeps[OF m assms(4,5) distinct_stamps[OF assms(3)] this] show ?thesis .
qed


lemma with_source_keeps:
  assumes "with_source src (\<lambda>s merged. bind (agg s) (\<lambda>a. join a merged)) merged = Inr M"
    and "map_of merged n = Some c"
    and "\<And>s a. agg s = Inr a \<Longrightarrow> distinct (fst a) \<and> n \<notin> set (columns (snd a))"
    and "\<And>a M. join a merged = Inr M \<Longrightarrow> distinct (fst a) \<Longrightarrow> n \<notin> set (columns (snd a))
           \<Longrightarrow> map_of M n = Some c"
  shows "map_of M n = Some c"
proof (cases src)
  case None
  with assms(1,2) show ?thesis by (simp add: with_source_def)
next
  case (Some T)
  show ?thesis
  proof (cases "nrows T = 0")
    case True
    with Some assms(1,2) show ?thesis by (simp add: with_source_def)
  next
    case False
    with Some assms(1) obtain a where a: "agg T = Inr a" and j: "join a merged = Inr M"
      by (auto simp: with_source_def bind_Inr)
    from assms(3)[OF a] assms(4)[OF j] show ?thesis by simp
  qed
qed

lemma with_source_wf:
  assumes "with_source src (\<lambda>s merged. bind (agg s) (\<lambda>a. join a merged)) merged = Inr M"
    and "wf merged"
    and "\<And>s a. agg s = Inr a \<Longrightarrow> distinct (fst a)"
    and "\<And>a M. join a merged = Inr M \<Longrightarrow> distinct (fst a) \<Longrightarrow> nrows M = nrows merged \<and> wf M"
  shows "wf M"
  using with_source_rows[OF assms] by simp

lemma day_sizes_columns: "day_sizes name src = Inr a \<Longrightarrow> columns (snd a) = [name]"
  by (auto simp: day_sizes_def columns_def split: option.splits if_splits)

lemma agg_cols_names:
  "collect (map (\<lambda>(col, f, name).
      case map_of src col of
        None \<Rightarrow> Inl KeyError
      | Some c \<Rightarrow> bind (agg_column f ds c) (\<lambda>a. Inr (name, a))) spec) = Inr cols
   \<Longrightarrow> map fst cols = map (\<lambda>(col, f, name). name) spec"
proof (induction spec arbitrary: cols)
  case Nil
  then show ?case by simp
next
  case (Cons e spec)
  obtain col f name where e: "e = (col, f, name)" by (cases e)
  from Cons.prems e obtain x xs where
    x: "(case map_of src col of None \<Rightarrow> Inl KeyError
          | Some c \<Rightarrow> bind (agg_column f ds c) (\<lambda>a. Inr (name, a))) = Inr x"
    and xs: "collect (map (\<lambda>(col, f, name).
      case map_of src col of
        None \<Rightarrow> Inl KeyError
      | Some c \<Rightarrow> bind (agg_column f ds c) (\<lambda>a. Inr (name, a))) spec) = Inr xs"
    and cols: "cols = x # xs"
    by (auto simp: bind_Inr)
  from x have "fst x = name" by (auto simp: bind_Inr split: option.splits)
  with Cons.IH[OF xs] cols e show ?case by simp
qed

lemma day_agg_columns:
  "day_agg spec src = Inr a \<Longrightarrow> columns (snd a) = map (\<lambda>(col, f, name). name) spec"
  unfolding day_agg_def columns_def
  by (auto simp: bind_Inr split: option.splits if_splits dest: agg_cols_names)




lemma join_all_sources_keeps:
  assumes "wf nhamcs_df" and "join_all_sources nhamcs_df cdc_df reddit_df twitter_df = Inr mid"
    and "map_of nhamcs_df n = Some c" and "n \<notin> set attached_all"
  shows "map_of mid n = Some c"
proof -
  from assms(2) obtain m1 m2 where
    s1: "with_source cdc_df
             (\<lambda>src merged. bind (day_sizes ''cdc_count'' src) (\<lambda>agg. merge_on_visit_date agg merged))
             nhamcs_df = Inr m1"
    and s2: "with_source reddit_df
             (\<lambda>src merged.
                bind (day_agg [(''sentiment_polarity'', AggMean, ''reddit_sentiment'')] src)
                  (\<lambda>agg. merge_on_visit_date agg merged))
             m1 = Inr m2"
    and s3: "with_source twitter_df
             (\<lambda>src merged. bind (day_sizes ''twitter_count'' src) (\<lambda>agg. merge_on_visit_date agg merged))
             m2 = Inr mid"
    unfolding join_all_sources_def bind_Inr by blast
  have n: "n \<noteq> ''cdc_count''" "n \<noteq> ''reddit_sentiment''" "n \<noteq> ''twitter_count''"
    using assms(4) by (auto simp: attached_all_def)
  have w1: "wf m1"
    by (rule with_source_wf[OF s1 assms(1)]) (auto dest: day_sizes_days merge_on_visit_date_rows[OF _ assms(1)])
  have w2: "wf m2"
    by (rule with_source_wf[OF s2 w1]) (auto dest: day_agg_days merge_on_visit_date_rows[OF _ w1])
  have k1: "map_of m1 n = Some c"
  proof (rule with_source_keeps[OF s1 assms(3)])
    fix s a assume "day_sizes ''cdc_count'' s = Inr a"
    from day_sizes_days[OF this] day_sizes_columns[OF this] n(1)
    show "distinct (fst a) \<and> n \<notin> set (columns (snd a))" by simp
  next
    fix a M assume "merge_on_visit_date a nhamcs_df = Inr M" "distinct (fst a)" "n \<notin> set (columns (snd a))"
    from merge_on_visit_date_keeps[OF this(1) assms(1) this(2) assms(3) this(3)]
    show "map_of M n = Some c" .
  qed
  have k2: "map_of m2 n = Some c"
  proof (rule with_source_keeps[OF s2 k1])
    fix s a assume "day_agg [(''sentiment_polarity'', AggMean, ''reddit_sentiment'')] s = Inr a"
    from day_agg_days[OF this] day_agg_columns[OF this] n(2)
    show "distinct (fst a) \<and> n \<notin> set (columns (snd a))" by simp
  next
    fix a M assume "merge_on_visit_date a m1 = Inr M" "distinct (fst a)" "n \<notin> set (columns (snd a))"
    from merge_on_visit_date_keeps[OF this(1) w1 this(2) k1 this(3)]
    show "map_of M n = Some c" .
  qed
  show ?thesis
  proof (rule with_source_keeps[OF s3 k2])
    fix s a assume "day_sizes ''twitter_count'' s = Inr a"
    from day_sizes_days[OF this] day_sizes_columns[OF this] n(3)
    show "distinct (fst a) \<and> n \<notin> set (columns (snd a))" by simp
  next
    fix a M assume "merge_on_visit_date a m2 = Inr M" "distinct (fst a)" "n \<notin> set (columns (snd a))"
    from merge_on_visit_date_keeps[OF this(1) w2 this(2) k2 this(3)]
    show "map_of M n = Some c" .
  qed
qed



section \<open>Merging: the zero fill\<close>

text \<open>The fill: a missing cell becomes 0, every other cell stays.\<close>

lemma fillna0_cells:
  assumes "fillna0 c = Inr c'"
  shows "cells c' = map (\<lambda>x. if x = NA then Num 0 else x) (cells c)"
proof (cases "dtype c = Datetime \<and> NA \<notin> set (cells c)")
  case True
  then have "map (\<lambda>x. if x = NA then Num 0 else x) (cells c) = cells c"
    by (intro map_idI) auto
  with True assms show ?thesis by (simp add: fillna0_def)
next
  case False
  with assms show ?thesis
    by (auto simp: fillna0_def fillna_def split: dtype.splits if_splits)
qed

lemma fillna0_no_NA: "fillna0 c = Inr c' \<Longrightarrow> NA \<notin> set (cells c')"
  by (auto simp: fillna0_cells)


lemma fillna_all_lookup:
  "fillna_all T = Inr T' \<Longrightarrow> map_of T n = Some c \<Longrightarrow>
   \<exists>c'. fillna0 c = Inr c' \<and> map_of T' n = Some c'"
proof (induction T arbitrary: T')
  case Nil
  then show ?case by simp
next
  case (Cons a T)
  obtain m d where a: "a = (m, d)" by (cases a)
  from Cons.prems(1) a obtain d' U where d': "fillna0 d = Inr d'" and U: "fillna_all T = Inr U"
    and T': "T' = (m, d') # U"
    by (auto simp: fillna_all_def bind_Inr)
  show ?case
  proof (cases "m = n")
    case True
    with Cons.prems(2) a d' T' show ?thesis by simp
  next
    case False
    with Cons.prems(2) a have "map_of T n = Some c" by simp
    from Cons.IH[OF U this] False T' show ?thesis by simp
  qed
qed

lemma fillna_all_no_NA:
  assumes "fillna_all T = Inr T'" and "(m, d) \<in> set T'"
  shows "NA \<notin> set (cells d)"
proof -
  from fillna_all_rel[OF assms(1)]
  have rel: "list_all2 (\<lambda>(n, c) (n', c'). n' = n \<and> fillna0 c = Inr c') T T'" .
  from assms(2) obtain i where i: "i < length T'" "T' ! i = (m, d)" by (auto simp: in_set_conv_nth)
  from rel i have il: "i < length T" by (simp add: list_all2_lengthD)
  obtain k c where kc: "T ! i = (k, c)" by (cases "T ! i")
  from list_all2_nthD[OF rel il] kc i(2) have "fillna0 c = Inr d" by simp
  then show ?thesis by (rule fillna0_no_NA)
qed



text \<open>
  The fill of \<open>merge_all_sources\<close> covers the whole merged table: when the call returns
  a table, no cell of it is missing, and a column of the primary table that does not
  bear the name of an attached column is returned with its missing cells replaced by 0
  and its other cells as they were.
\<close>

lemma merge_all_sources_fills:
  assumes "wf nhamcs_df" and "merge_all_sources nhamcs_df cdc_df reddit_df twitter_df = Inr out"
  shows "(\<forall>(m, d)\<in>set out. NA \<notin> set (cells d)) \<and>
         (\<forall>n c. map_of nhamcs_df n = Some c \<longrightarrow> n \<notin> set attached_all \<longrightarrow>
            (\<exists>c'. map_of out n = Some c' \<and> cells c' = cells (fillna (Num 0) c)))"
proof (intro conjI allI impI)
  from assms(2) obtain mid where j: "join_all_sources nhamcs_df cdc_df reddit_df twitter_df = Inr mid"
    and f: "fillna_all mid = Inr out"
    unfolding merge_all_sources_def bind_Inr by blast
  show "\<forall>(m, d)\<in>set out. NA \<notin> set (cells d)"
    using fillna_all_no_NA[OF f] by auto
  fix n c assume c: "map_of nhamcs_df n = Some c" and n: "n \<notin> set attached_all"
  from join_all_sources_keeps[OF assms(1) j c n] have "map_of mid n = Some c" .
  from fillna_all_lookup[OF f this] obtain c' where "fillna0 c = Inr c'" "map_of out n = Some c'"
    by blast
  then show "\<exists>c'. map_of out n = Some c' \<and> cells c' = cells (fillna (Num 0) c)"
    by (auto simp: fillna0_cells fillna_def)
qed




section \<open>Merging: the key of the join\<close>

text \<open>
  Claim C2 says that the join is keyed on the calendar day of the visit. In
  \<open>merge_all_sources\<close> the key is the timestamp itself, compared with the midnight
  timestamps of the aggregate: of two visits on days with one news item each, the one at
  10:00 finds no partner and gets the count 0 from the fill, the one at midnight gets the
  count 1. In \<open>merge_datasets\<close> the key is cut to the day, but as date objects, which the
  library refuses to join with the datetime index of the aggregate: on the same tables
  the call raises \<open>ValueError\<close>.
\<close>

theorem merge_time_of_day:
  "merge_all_sources
     [(''visit_date'', Column Datetime [Ts 19723 36000, Ts 19724 0])]
     (Some [(''date'', Column Datetime [Ts 19723 28800, Ts 19724 28800]),
            (''title'', Column Object [Str ''a'', Str ''b'']),
            (''keywords'', Column Object [Str ''flu'', Str ''rsv''])])
     None None
   = Inr [(''visit_date'', Column Datetime [Ts 19723 36000, Ts 19724 0]),
          (''cdc_count'', Column Numeric [Num 0, Num 1])]
   \<and> merge_datasets
     [(''visit_date'', Column Datetime [Ts 19723 36000, Ts 19724 0])]
     (Some [(''date'', Column Datetime [Ts 19723 28800, Ts 19724 28800]),
            (''title'', Column Object [Str ''a'', Str ''b'']),
            (''keywords'', Column Object [Str ''flu'', Str ''rsv''])])
     None None
   = Inl ValueError"
  by (simp add: merge_all_eval merge_datasets_eval lag_eval)

section \<open>Cleaning of scraped data: one row for each key\<close>

lemma sort_cells_arrange: "sort_cells keys xs = arrange keys xs"
  by (simp add: sort_cells_def arrange_def)

lemma insort_key_fst:
  "insort_key (\<lambda>p. ts_key (fst p)) (fst x, g (snd x)) (map (\<lambda>p. (fst p, g (snd p))) ys)
   = map (\<lambda>p. (fst p, g (snd p))) (insort_key (\<lambda>p. ts_key (fst p)) x ys)"
  by (induction ys) simp_all

lemma sort_key_fst:
  "sort_key (\<lambda>p. ts_key (fst p)) (map (\<lambda>p. (fst p, g (snd p))) ps)
   = map (\<lambda>p. (fst p, g (snd p))) (sort_key (\<lambda>p. ts_key (fst p)) ps)"
  by (induction ps) (simp_all add: insort_key_fst)

lemma arrange_map: "arrange keys (map g xs) = map g (arrange keys xs)"
proof -
  let ?h = "\<lambda>p. (fst p, g (snd p))"
  have z: "zip keys (map g xs) = map ?h (zip keys xs)"
    by (simp add: zip_map2 case_prod_unfold)
  have f1: "filter (\<lambda>p. fst p \<noteq> NA) (map ?h (zip keys xs)) = map ?h (filter (\<lambda>p. fst p \<noteq> NA) (zip keys xs))"
    by (simp add: filter_map comp_def)
  have f2: "filter (\<lambda>p. fst p = NA) (map ?h (zip keys xs)) = map ?h (filter (\<lambda>p. fst p = NA) (zip keys xs))"
    by (simp add: filter_map comp_def)
  show ?thesis
    unfolding arrange_def Let_def z f1 f2 sort_key_fst by (simp add: comp_def)
qed

lemma arrange_zip:
  assumes "length xs = length ys"
  shows "arrange keys (zip xs ys) = zip (arrange keys xs) (arrange keys ys)"
proof -
  have "map fst (arrange keys (zip xs ys)) = arrange keys xs"
    using arrange_map[of keys fst "zip xs ys"] assms by simp
  moreover have "map snd (arrange keys (zip xs ys)) = arrange keys ys"
    using arrange_map[of keys snd "zip xs ys"] assms by simp
  ultimately show ?thesis using zip_map_fst_snd[of "arrange keys (zip xs ys)"] by simp
qed

lemma length_arrange: "length (arrange k xs) = min (length k) (length xs)"
proof -
  have "length (filter (\<lambda>p. fst p \<noteq> NA) (zip k xs)) + length (filter (\<lambda>p. fst p = NA) (zip k xs))
      = length (zip k xs)"
    using sum_length_filter_compl[of "\<lambda>p. fst p \<noteq> NA" "zip k xs"] by simp
  then show ?thesis by (simp add: arrange_def Let_def)
qed

lemma set_arrange:
  assumes "length k = length xs"
  shows "set (arrange k xs) = set xs"
proof -
  have "set (arrange k xs) = snd ` (set (filter (\<lambda>p. fst p \<noteq> NA) (zip k xs))
      \<union> set (filter (\<lambda>p. fst p = NA) (zip k xs)))"
    by (simp add: arrange_def Let_def image_Un)
  also have "set (filter (\<lambda>p. fst p \<noteq> NA) (zip k xs)) \<union> set (filter (\<lambda>p. fst p = NA) (zip k xs))
      = set (zip k xs)" by auto
  also have "snd ` set (zip k xs) = set (map snd (zip k xs))" by simp
  also have "\<dots> = set xs" using assms by simp
  finally show ?thesis .
qed

lemma distinct_arrange:
  assumes "length k = length xs" and "distinct xs"
  shows "distinct (arrange k xs)"
proof -
  have "card (set (arrange k xs)) = length xs"
    using set_arrange[OF assms(1)] distinct_card[OF assms(2)] by simp
  also have "\<dots> = length (arrange k xs)" using assms(1) by (simp add: length_arrange)
  finally show ?thesis by (rule card_distinct)
qed

lemma arrange_replicate:
  assumes "length k = n"
  shows "arrange k (replicate n a) = replicate n a"
proof -
  have "\<forall>y\<in>set (arrange k (replicate n a)). y = a"
    using set_arrange[of k "replicate n a"] assms by auto
  from replicate_length_same[OF this] assms show ?thesis by (simp add: length_arrange)
qed

lemma row_keys_arrange:
  assumes "length k = n"
  shows "\<forall>c\<in>set cs. length c = n \<Longrightarrow> row_keys n (map (sort_cells k) cs) = arrange k (row_keys n cs)"
proof (induction cs)
  case Nil
  then show ?case by (simp add: arrange_replicate[OF assms])
next
  case (Cons c cs)
  have l: "length c = length (row_keys n cs)" using Cons.prems length_row_keys[of cs n] by simp
  have "arrange k (map (\<lambda>(x, y). x # y) (zip c (row_keys n cs)))
      = map (\<lambda>(x, y). x # y) (zip (arrange k c) (arrange k (row_keys n cs)))"
    by (simp add: arrange_map arrange_zip[OF l])
  with Cons show ?case by (simp add: sort_cells_arrange)
qed

lemma sel_cols_sort_values:
  assumes "sort_values name T = Inr T'"
  shows "\<exists>k. map_of T name = Some k \<and>
           sel_cols T' names = map (sort_cells (cells k)) (sel_cols T names)"
proof -
  from assms obtain k where k: "map_of T name = Some k"
    and T': "T' = map (\<lambda>(n, c). (n, Column (dtype c) (sort_cells (cells k) (cells c)))) T"
    by (auto simp: sort_values_def split: option.splits)
  have "sel_cols T' names = map (sort_cells (cells k)) (sel_cols T names)"
    by (induction names) (auto simp: sel_cols_def T' map_of_map_cols split: option.splits)
  with k show ?thesis by blast
qed

lemma first_mask_distinct:
  "distinct (keep_cells (first_mask seen ks) ks) \<and>
   set (keep_cells (first_mask seen ks) ks) \<inter> set seen = {}"
proof (induction ks arbitrary: seen)
  case Nil
  then show ?case by simp
next
  case (Cons k ks)
  from Cons.IH[of "k # seen"] show ?case by auto
qed

lemma first_mask_set: "set (keep_cells (first_mask seen ks) ks) = set ks - set seen"
proof (induction ks arbitrary: seen)
  case Nil
  then show ?case by simp
next
  case (Cons k ks)
  from Cons.IH[of "k # seen"] show ?case by auto
qed

lemma drop_duplicates_keys:
  assumes "wf T" and "T \<noteq> []"
  shows "distinct (row_keys (nrows (drop_duplicates by T)) (sel_cols (drop_duplicates by T) by)) \<and>
         set (row_keys (nrows (drop_duplicates by T)) (sel_cols (drop_duplicates by T) by))
           = set (row_keys (nrows T) (sel_cols T by))"
proof -
  let ?n = "nrows T"
  let ?cs = "sel_cols T by"
  let ?ks = "row_keys ?n ?cs"
  let ?m = "first_mask [] ?ks"
  let ?D = "keep_rows ?m T"
  have D: "drop_duplicates by T = ?D" by (simp add: drop_duplicates_def)
  have lens: "\<forall>c\<in>set ?cs. length c = ?n" using sel_cols_lengths[OF assms(1)] .
  have lk: "length ?ks = ?n" using length_row_keys[OF lens] .
  have lm: "length ?m = ?n" using lk by (simp add: length_first_mask)
  have nD: "nrows ?D = length (filter (\<lambda>b. b) ?m)"
    using nrows_keep_rows[OF assms(2), of ?m] lm by simp
  have "row_keys (nrows ?D) (sel_cols ?D by) = keep_cells ?m ?ks"
    using row_keys_keep[OF lm lens] nD by (simp add: sel_cols_keep_rows)
  with first_mask_distinct[of "[]" ?ks] first_mask_set[of "[]" ?ks] D show ?thesis by simp
qed

lemma date_parts_other:
  assumes "date_parts T = Inr T'" and "n \<notin> {''day_of_week'', ''month'', ''year''}"
  shows "map_of T' n = map_of T n"
proof (cases "map_of T ''date''")
  case None
  with assms show ?thesis by (simp add: date_parts_def)
next
  case (Some c)
  with assms(1) obtain w m y where
    T': "T' = assign ''year'' y (assign ''month'' m (assign ''day_of_week'' w T))"
    by (auto simp: date_parts_def Let_def split: sum.splits option.splits)
  with assms(2) show ?thesis by (simp add: map_of_assign)
qed

lemma sel_cols_cong:
  "\<forall>n\<in>set names. map_of T' n = map_of T n \<Longrightarrow> sel_cols T' names = sel_cols T names"
  by (induction names) (simp_all add: sel_cols_def)

lemma duplicate_cols_sub: "set (duplicate_cols T) \<subseteq> {''date'', ''title'', ''text''}"
  by (auto simp: duplicate_cols_def)

lemma clean_scraped_data_keys:
  assumes "wf df" and "clean_scraped_data parse df source = Inr out" and "duplicate_cols df \<noteq> []"
    and "scraped_filtered parse df = Inr F"
  shows "distinct (row_keys (nrows out) (sel_cols out (duplicate_cols df))) \<and>
         set (row_keys (nrows out) (sel_cols out (duplicate_cols df)))
           = set (row_keys (nrows F) (sel_cols F (duplicate_cols df)))"
proof -
  let ?by = "duplicate_cols df"
  from assms(2,4) obtain T5 where
    s5: "date_parts (dedup_scraped F) = Inr T5" and s6: "sort_by_date T5 = Inr out"
    unfolding clean_scraped_data_def bind_Inr by auto
  note f = assms(4)
  have wF: "wf F" using scraped_filtered_props[OF f, of "''date''"] assms(1) by simp
  have dc: "duplicate_cols F = ?by"
    using scraped_filtered_props[OF f] by (intro duplicate_cols_cong) simp_all
  let ?D = "dedup_scraped F"
  let ?K = "row_keys (nrows F) (sel_cols F ?by)"
  have D: "?D = drop_duplicates ?by F" using dc assms(3) by (simp add: dedup_scraped_def)
  have "F \<noteq> []" using dc assms(3) duplicate_cols_nonempty[of F] by simp
  from drop_duplicates_keys[OF wF this, of ?by] D
  have kD: "distinct (row_keys (nrows ?D) (sel_cols ?D ?by))"
    and sD: "set (row_keys (nrows ?D) (sel_cols ?D ?by)) = set ?K" by simp_all
  from dedup_scraped_rows[OF wF] have wD: "wf ?D" by simp
  from date_parts_rows[OF wD s5] have w5: "wf T5" and n5: "nrows T5 = nrows ?D" by simp_all
  have "\<forall>n\<in>set ?by. map_of T5 n = map_of ?D n"
  proof
    fix n assume "n \<in> set ?by"
    with duplicate_cols_sub[of df] have "n \<notin> {''day_of_week'', ''month'', ''year''}" by auto
    from date_parts_other[OF s5 this] show "map_of T5 n = map_of ?D n" .
  qed
  from sel_cols_cong[OF this] kD sD n5
  have k5: "distinct (row_keys (nrows T5) (sel_cols T5 ?by))"
    and s5': "set (row_keys (nrows T5) (sel_cols T5 ?by)) = set ?K" by simp_all
  show ?thesis
  proof (cases "''date'' \<in> set (columns T5)")
    case False
    with s6 k5 s5' show ?thesis by (simp add: sort_by_date_def)
  next
    case True
    with s6 have sv: "sort_values ''date'' T5 = Inr out" by (simp add: sort_by_date_def)
    from sel_cols_sort_values[OF sv, of ?by] obtain k where k: "map_of T5 ''date'' = Some k"
      and sc: "sel_cols out ?by = map (sort_cells (cells k)) (sel_cols T5 ?by)" by blast
    have lk: "length (cells k) = nrows T5" using wf_lookup[OF w5 k] .
    have lens: "\<forall>c\<in>set (sel_cols T5 ?by). length c = nrows T5" using sel_cols_lengths[OF w5] .
    have n: "nrows out = nrows T5" using sort_values_rows[OF w5 sv] by simp
    have e: "row_keys (nrows out) (sel_cols out ?by) = arrange (cells k) (row_keys (nrows T5) (sel_cols T5 ?by))"
      using row_keys_arrange[OF lk lens] sc n by simp
    have l: "length (cells k) = length (row_keys (nrows T5) (sel_cols T5 ?by))"
      using lk length_row_keys[OF lens] by simp
    from distinct_arrange[OF l k5] set_arrange[OF l] e s5' show ?thesis by simp
  qed
qed

text \<open>
  Claim C8, as amended. The duplicate key of \<open>clean_scraped_data\<close> is made of those
  of the columns \<open>date\<close> and \<open>title\<close> (\<open>date\<close> and \<open>text\<close> when the table has
  no \<open>title\<close> column) that the table has. For a table whose columns have equal
  length, when a table is returned, the rows that pass the blank-text, date and sentiment
  filters are reduced to one row for each distinct key: the keys of the returned rows are
  pairwise distinct and are the keys of the rows that pass the filters. When the table
  has none of the key columns, no row is removed, and the output has as many rows as pass
  the filters.
\<close>

theorem clean_scraped_data_duplicates:
  assumes "wf df" and "clean_scraped_data parse df source = Inr out"
  shows "\<exists>F. scraped_filtered parse df = Inr F \<and>
           duplicate_cols F = duplicate_cols df \<and>
           nrows out =
             (if duplicate_cols df = [] then nrows F
              else card (set (row_keys (nrows F) (sel_cols F (duplicate_cols df))))) \<and>
           (duplicate_cols df \<noteq> [] \<longrightarrow>
              distinct (row_keys (nrows out) (sel_cols out (duplicate_cols df))) \<and>
              set (row_keys (nrows out) (sel_cols out (duplicate_cols df)))
                = set (row_keys (nrows F) (sel_cols F (duplicate_cols df))))"
proof -
  from assms(2) obtain F T5 where f: "scraped_filtered parse df = Inr F"
    and s5: "date_parts (dedup_scraped F) = Inr T5" and s6: "sort_by_date T5 = Inr out"
    unfolding clean_scraped_data_def bind_Inr by blast
  have wF: "wf F" using scraped_filtered_props[OF f, of "''date''"] assms(1) by simp
  have dc: "duplicate_cols F = duplicate_cols df"
    using scraped_filtered_props[OF f] by (intro duplicate_cols_cong) simp_all
  from dedup_scraped_rows[OF wF] have wD: "wf (dedup_scraped F)"
    and nD: "nrows (dedup_scraped F) =
      (if duplicate_cols F = [] then nrows F
       else card (set (row_keys (nrows F) (sel_cols F (duplicate_cols F)))))" by simp_all
  from date_parts_rows[OF wD s5] have w5: "wf T5" and n5: "nrows T5 = nrows (dedup_scraped F)"
    by simp_all
  have rows: "nrows out =
             (if duplicate_cols df = [] then nrows F
              else card (set (row_keys (nrows F) (sel_cols F (duplicate_cols df)))))"
    using sort_by_date_rows[OF w5 s6] n5 nD dc by simp
  have keys: "duplicate_cols df \<noteq> [] \<longrightarrow>
              distinct (row_keys (nrows out) (sel_cols out (duplicate_cols df))) \<and>
              set (row_keys (nrows out) (sel_cols out (duplicate_cols df)))
                = set (row_keys (nrows F) (sel_cols F (duplicate_cols df)))"
    using clean_scraped_data_keys[OF assms _ f] by blast
  from f dc rows keys show ?thesis by blast
qed

theorem clean_scraped_data_duplicates_witness:
  "clean_scraped_data (\<lambda>s. None)
     [(''date'', Column Datetime [Ts 1 0, Ts 1 0, Ts 2 0]),
      (''title'', Column Object [Str ''a'', Str ''a '', Str ''a''])] ''cdc''
   = Inr [(''date'', Column Datetime [Ts 1 0, Ts 2 0]),
          (''title'', Column Object [Str ''a'', Str ''a'']),
          (''title_lower'', Column Object [Str ''a'', Str ''a'']),
          (''day_of_week'', Column Numeric [Num 4, Num 5]),
          (''month'', Column Numeric [Num 1, Num 1]),
          (''year'', Column Numeric [Num 1970, Num 1970])]"
proof -
  let ?df = "[(''date'', Column Datetime [Ts 1 0, Ts 1 0, Ts 2 0]),
      (''title'', Column Object [Str ''a'', Str ''a '', Str ''a''])]"
  have h1: "wf ?df" by (simp add: wf_def nrows_def)
  have h2: "clean_scraped_data (\<lambda>s. None) ?df ''cdc''
     = Inr [(''date'', Column Datetime [Ts 1 0, Ts 2 0]),
          (''title'', Column Object [Str ''a'', Str ''a'']),
          (''title_lower'', Column Object [Str ''a'', Str ''a'']),
          (''day_of_week'', Column Numeric [Num 4, Num 5]),
          (''month'', Column Numeric [Num 1, Num 1]),
          (''year'', Column Numeric [Num 1970, Num 1970])]"
    by (simp add: scraped_eval2)
  from clean_scraped_data_duplicates[OF h1 h2] h2 show ?thesis by simp
qed

text \<open>
  Without a \<open>date\<close>, \<open>title\<close> or \<open>text\<close> column nothing is removed: two rows that
  are equal in every column both stay.
\<close>

theorem clean_scraped_data_duplicates_counterexample:
  "clean_scraped_data (\<lambda>s. None) [(''content'', Column Object [Str ''a'', Str ''a''])] ''twitter''
   = Inr [(''content'', Column Object [Str ''a'', Str ''a'']),
          (''content_lower'', Column Object [Str ''a'', Str ''a''])]"
  by (simp add: scraped_eval2)

end
